theory Spec2Isabelle
  imports Complex_Main
begin

section \<open>Double-precision arithmetic\<close>

text \<open>
  Python floats are IEEE 754 doubles. Every arithmetic operation on them returns the
  double nearest to the exact result, ties going to the even significand. A double is a
  real number here, and \<open>round_double\<close> is that rounding: \<open>exponent\<close> is the binary
  exponent of a number (not below -1022, where the subnormal range begins), \<open>ulp\<close> the
  distance between neighbouring doubles at that exponent (with 53 significant bits), and
  \<open>rne\<close> rounds to the nearest integer, ties to even. Overflow is left out:
  \<open>round_double\<close> is the arithmetic of the interpreter for results below the largest
  double, about \<open>1.8e308\<close>, which probabilities and the costs of the sample system
  stay far from.
\<close>

definition rne :: "real \<Rightarrow> int" where
  "rne x =
    (if x - of_int \<lfloor>x\<rfloor> < 1 / 2 then \<lfloor>x\<rfloor>
     else if 1 / 2 < x - of_int \<lfloor>x\<rfloor> then \<lfloor>x\<rfloor> + 1
     else if even \<lfloor>x\<rfloor> then \<lfloor>x\<rfloor> else \<lfloor>x\<rfloor> + 1)"

definition exponent :: "real \<Rightarrow> int" where
  "exponent x = max \<lfloor>log 2 \<bar>x\<bar>\<rfloor> (- 1022)"

definition ulp :: "real \<Rightarrow> real" where
  "ulp x = 2 powr (of_int (exponent x) - 52)"

definition round_double :: "real \<Rightarrow> real" where
  "round_double x = (if x = 0 then 0 else of_int (rne (x / ulp x)) * ulp x)"

text \<open>
  The operations of the program take the rounding as their first argument \<open>fl\<close>: the
  interpreter computes with \<open>fl = round_double\<close>, and \<open>fl = (\<lambda>x. x)\<close> is exact
  arithmetic. A float literal of the source denotes the double nearest to its decimal
  value; the literals 0.0, 1.0 and 100.0 are doubles themselves.
\<close>

section \<open>Data model (Layer 1: risk ontology interface)\<close>

text \<open>
  The dataclasses \<open>RiskFactor\<close> and \<open>CostImpact\<close>. Dictionaries that the code
  iterates over (\<open>risk_structure\<close>, \<open>cost_impacts\<close>, the \<open>events\<close> of a scenario)
  are association lists in insertion order, looked up with \<open>map_of\<close>; dictionaries that
  are only read and written by key (\<open>cpt\<close>, \<open>evidence\<close>, one row of the result
  table) are maps.
\<close>

record RiskFactor =
  name :: string
  probability :: real
  parents :: "string list"

record CostImpact =
  factor :: string
  base_cost :: real
  multiplier_if_triggered :: real

record ShipbuildingOntology =
  risk_structure :: "(string \<times> RiskFactor) list"
  cost_impacts :: "(string \<times> CostImpact) list"

text \<open>
  \<open>_build_sample_structure\<close> and \<open>_build_cost_impacts\<close>. The display labels of the
  source are Korean strings that only \<open>print\<close> reads; the factor id stands in for them.
\<close>

definition build_sample_structure :: "(string \<times> RiskFactor) list" where
  "build_sample_structure =
    [(''material_delay'',
        \<lparr>name = ''material_delay'', probability = round_double 0.30, parents = []\<rparr>),
     (''design_change'',
        \<lparr>name = ''design_change'', probability = round_double 0.15, parents = []\<rparr>),
     (''manpower_shortage'',
        \<lparr>name = ''manpower_shortage'', probability = round_double 0.25, parents = []\<rparr>),
     (''bad_weather'',
        \<lparr>name = ''bad_weather'', probability = round_double 0.20, parents = []\<rparr>),
     (''block_delay'', \<lparr>name = ''block_delay'', probability = 0.0,
        parents = [''material_delay'', ''manpower_shortage'']\<rparr>),
     (''rework'', \<lparr>name = ''rework'', probability = 0.0,
        parents = [''design_change'', ''bad_weather'']\<rparr>),
     (''idle_time'', \<lparr>name = ''idle_time'', probability = 0.0,
        parents = [''material_delay'', ''block_delay'']\<rparr>),
     (''overtime'', \<lparr>name = ''overtime'', probability = 0.0,
        parents = [''block_delay'', ''idle_time'']\<rparr>),
     (''material_waste'', \<lparr>name = ''material_waste'', probability = 0.0,
        parents = [''rework'', ''design_change'']\<rparr>),
     (''equipment_extend'', \<lparr>name = ''equipment_extend'', probability = 0.0,
        parents = [''block_delay'', ''bad_weather'']\<rparr>)]"

definition build_cost_impacts :: "(string \<times> CostImpact) list" where
  "build_cost_impacts =
    [(''overtime'', \<lparr>factor = ''overtime'', base_cost = round_double 3.0,
        multiplier_if_triggered = round_double 1.5\<rparr>),
     (''material_waste'', \<lparr>factor = ''material_waste'', base_cost = round_double 1.0,
        multiplier_if_triggered = round_double 2.0\<rparr>),
     (''equipment_extend'', \<lparr>factor = ''equipment_extend'', base_cost = round_double 2.0,
        multiplier_if_triggered = round_double 1.3\<rparr>),
     (''rework'', \<lparr>factor = ''rework'', base_cost = round_double 1.5,
        multiplier_if_triggered = round_double 1.8\<rparr>)]"

definition ShipbuildingOntology_init :: ShipbuildingOntology where
  "ShipbuildingOntology_init =
    \<lparr>risk_structure = build_sample_structure, cost_impacts = build_cost_impacts\<rparr>"

section \<open>Layer 2: the Bayesian network model\<close>

text \<open>
  The exceptions: \<open>KeyError\<close> from a dictionary subscript with a missing key,
  \<open>RecursionError\<close> when the nesting of \<open>calculate_probability\<close> calls exceeds the
  interpreter's recursion limit, and \<open>TypeError\<close>, which the statistics of the table
  library raise on a column that is not numeric. The source defines no exception class
  of its own.
\<close>

datatype error = KeyError | RecursionError | TypeError

record BayesianNetworkModel =
  bn_risk_structure :: "(string \<times> RiskFactor) list"
  cpt :: "string \<rightharpoonup> (bool list \<rightharpoonup> real)"
  evidence :: "string \<rightharpoonup> bool"

text \<open>\<open>_initialize_cpt\<close>: the hard-coded tables, keyed by tuples of parent states.\<close>

definition cpt2 :: "real \<Rightarrow> real \<Rightarrow> real \<Rightarrow> real \<Rightarrow> (bool list \<rightharpoonup> real)" where
  "cpt2 tt tf ft ff =
    [[True, True] \<mapsto> tt, [True, False] \<mapsto> tf, [False, True] \<mapsto> ft, [False, False] \<mapsto> ff]"

definition initialize_cpt :: "string \<rightharpoonup> (bool list \<rightharpoonup> real)" where
  "initialize_cpt =
    [''block_delay'' \<mapsto> cpt2 (round_double 0.85) (round_double 0.60)
        (round_double 0.55) (round_double 0.10),
     ''rework'' \<mapsto> cpt2 (round_double 0.75) (round_double 0.50)
        (round_double 0.30) (round_double 0.05),
     ''idle_time'' \<mapsto> cpt2 (round_double 0.90) (round_double 0.70)
        (round_double 0.50) (round_double 0.05),
     ''overtime'' \<mapsto> cpt2 (round_double 0.95) (round_double 0.70)
        (round_double 0.60) (round_double 0.10),
     ''material_waste'' \<mapsto> cpt2 (round_double 0.80) (round_double 0.60)
        (round_double 0.40) (round_double 0.05),
     ''equipment_extend'' \<mapsto> cpt2 (round_double 0.85) (round_double 0.65)
        (round_double 0.45) (round_double 0.10)]"

definition BayesianNetworkModel_init :: "ShipbuildingOntology \<Rightarrow> BayesianNetworkModel" where
  "BayesianNetworkModel_init ontology =
    \<lparr>bn_risk_structure = risk_structure ontology, cpt = initialize_cpt, evidence = Map.empty\<rparr>"

text \<open>\<open>set_evidence\<close>: one dictionary store (and a \<open>print\<close>); no lookup, no check.\<close>

definition set_evidence :: "BayesianNetworkModel \<Rightarrow> string \<Rightarrow> bool \<Rightarrow> BayesianNetworkModel" where
  "set_evidence m f occurred = m\<lparr>evidence := (evidence m)(f \<mapsto> occurred)\<rparr>"

text \<open>
  A list comprehension over calls that may raise: the first exception, in list order,
  leaves the comprehension.
\<close>

fun collect :: "(error + 'a) list \<Rightarrow> error + 'a list" where
  "collect [] = Inr []"
| "collect (Inl e # rs) = Inl e"
| "collect (Inr v # rs) = (case collect rs of Inl e \<Rightarrow> Inl e | Inr vs \<Rightarrow> Inr (v # vs))"

text \<open>
  \<open>tuple(bool(i & (1 << j)) for j in range(k))\<close>: the parent states of combination
  number \<open>i\<close>.
\<close>

definition parent_states :: "nat \<Rightarrow> nat \<Rightarrow> bool list" where
  "parent_states k i = map (\<lambda>j. and i (push_bit j 1) \<noteq> 0) [0..<k]"

text \<open>
  The inner loop over \<open>zip(risk.parents, parent_states)\<close>; \<open>prob\<close> is the recursive
  call \<open>self.calculate_probability\<close>, made again for every parent in every combination.
  Each pass multiplies \<open>combination_prob\<close> by the parent's probability or by the
  difference \<open>1.0 - parent_prob\<close>: a subtraction and a multiplication, each rounded.
\<close>

fun combination_prob ::
  "(real \<Rightarrow> real) \<Rightarrow> (string \<Rightarrow> error + real) \<Rightarrow> (string \<times> bool) list \<Rightarrow> real \<Rightarrow> error + real" where
  "combination_prob fl prob [] acc = Inr acc"
| "combination_prob fl prob ((parent, state) # rest) acc =
    (case prob parent of
       Inl e \<Rightarrow> Inl e
     | Inr parent_prob \<Rightarrow>
         combination_prob fl prob rest
           (fl (acc * (if state then parent_prob else fl (1 - parent_prob)))))"

text \<open>
  The outer loop \<open>for i in range(2 ** len(risk.parents))\<close>; for a combination that the
  table holds, \<open>total_prob += combination_prob * conditional_prob\<close> is a multiplication
  and an addition.
\<close>

fun cpt_loop ::
  "(real \<Rightarrow> real) \<Rightarrow> (string \<Rightarrow> error + real) \<Rightarrow> string list \<Rightarrow> (bool list \<rightharpoonup> real)
    \<Rightarrow> nat list \<Rightarrow> real \<Rightarrow> error + real" where
  "cpt_loop fl prob ps table [] total_prob = Inr total_prob"
| "cpt_loop fl prob ps table (i # is) total_prob =
    (case combination_prob fl prob (zip ps (parent_states (length ps) i)) 1 of
       Inl e \<Rightarrow> Inl e
     | Inr c \<Rightarrow>
         (case table (parent_states (length ps) i) of
            Some conditional_prob \<Rightarrow>
              cpt_loop fl prob ps table is (fl (total_prob + fl (c * conditional_prob)))
          | None \<Rightarrow> cpt_loop fl prob ps table is total_prob))"

text \<open>\<open>np.prod\<close> of a list: the running product from the left, 1.0 for no element.\<close>

fun np_prod :: "(real \<Rightarrow> real) \<Rightarrow> real list \<Rightarrow> real" where
  "np_prod fl [] = 1"
| "np_prod fl (x # xs) = foldl (\<lambda>acc y. fl (acc * y)) x xs"

text \<open>
  \<open>calculate_probability\<close>. The depth argument is the number of nested calls the
  interpreter still allows: a call at depth 0 raises \<open>RecursionError\<close>, which is how the
  unguarded recursion of the source ends on a cyclic parent relation.
\<close>

fun calculate_probability ::
  "(real \<Rightarrow> real) \<Rightarrow> nat \<Rightarrow> BayesianNetworkModel \<Rightarrow> string \<Rightarrow> error + real" where
  "calculate_probability fl 0 m f = Inl RecursionError"
| "calculate_probability fl (Suc d) m f =
    (case map_of (bn_risk_structure m) f of
       None \<Rightarrow> Inl KeyError
     | Some risk \<Rightarrow>
         if parents risk = [] then
           (case evidence m f of
              Some e \<Rightarrow> Inr (if e then 1 else 0)
            | None \<Rightarrow> Inr (probability risk))
         else
           (case evidence m f of
              Some e \<Rightarrow> Inr (if e then 1 else 0)
            | None \<Rightarrow>
               (case collect (map (\<lambda>p. calculate_probability fl d m p) (parents risk)) of
                  Inl e \<Rightarrow> Inl e
                | Inr parent_probs \<Rightarrow>
                   (case cpt m f of
                      None \<Rightarrow> Inr (fl (1 - np_prod fl (map (\<lambda>p. fl (1 - p)) parent_probs)))
                    | Some table \<Rightarrow>
                        cpt_loop fl (\<lambda>p. calculate_probability fl d m p) (parents risk) table
                          [0..<2 ^ length (parents risk)] 0))))"

text \<open>\<open>get_all_probabilities\<close>: a dictionary comprehension over the registered ids.\<close>

definition get_all_probabilities ::
  "(real \<Rightarrow> real) \<Rightarrow> nat \<Rightarrow> BayesianNetworkModel \<Rightarrow> error + (string \<times> real) list" where
  "get_all_probabilities fl d m =
    (case collect (map (\<lambda>k. calculate_probability fl d m k) (map fst (bn_risk_structure m))) of
       Inl e \<Rightarrow> Inl e
     | Inr ps \<Rightarrow> Inr (zip (map fst (bn_risk_structure m)) ps))"

section \<open>Layer 2: the Monte Carlo simulation engine\<close>

text \<open>
  \<open>MonteCarloSimulator\<close> keeps the ontology, a reference to the Bayesian model and the
  baseline \<open>base_cost = 100.0\<close>. The model object is shared with the decision support
  system, which mutates its evidence; the operations below therefore take the model as an
  argument rather than a copy stored in the simulator.
\<close>

record MonteCarloSimulator =
  sim_ontology :: ShipbuildingOntology
  sim_base_cost :: real

definition MonteCarloSimulator_init :: "ShipbuildingOntology \<Rightarrow> MonteCarloSimulator" where
  "MonteCarloSimulator_init ontology = \<lparr>sim_ontology = ontology, sim_base_cost = 100.0\<rparr>"

text \<open>
  One row of the result table is the dictionary \<open>cost_breakdown\<close>: its values are
  floats (costs) and booleans (occurrences), under one key space.
\<close>

datatype cell = Num real | Flag bool

type_synonym row = "string \<rightharpoonup> cell"

text \<open>
  \<open>np.random.random()\<close> is a global stream of draws: \<open>rnd\<close> is the stream and the
  position counts the draws taken so far.

  The loop \<open>for factor in risk_structure.keys()\<close> filling \<open>iteration_state\<close>.
\<close>

fun sample_factors ::
  "(real \<Rightarrow> real) \<Rightarrow> nat \<Rightarrow> BayesianNetworkModel \<Rightarrow> (nat \<Rightarrow> real) \<Rightarrow> string list \<Rightarrow> nat
    \<Rightarrow> (string \<rightharpoonup> bool) \<Rightarrow> error + (string \<rightharpoonup> bool) \<times> nat" where
  "sample_factors fl d m rnd [] pos iteration_state = Inr (iteration_state, pos)"
| "sample_factors fl d m rnd (f # fs) pos iteration_state =
    (case calculate_probability fl d m f of
       Inl e \<Rightarrow> Inl e
     | Inr prob \<Rightarrow>
         sample_factors fl d m rnd fs (Suc pos) (iteration_state(f \<mapsto> (rnd pos < prob))))"

text \<open>
  The loop \<open>for factor, impact in cost_impacts.items()\<close> on
  \<open>(total_cost, cost_breakdown)\<close>: \<open>additional_cost\<close> is a product, \<open>total_cost +=\<close>
  a sum.
\<close>

fun cost_loop ::
  "(real \<Rightarrow> real) \<Rightarrow> (string \<rightharpoonup> bool) \<Rightarrow> (string \<times> CostImpact) list \<Rightarrow> real \<times> row
    \<Rightarrow> real \<times> row" where
  "cost_loop fl iteration_state [] acc = acc"
| "cost_loop fl iteration_state ((f, impact) # rest) (total_cost, cost_breakdown) =
    (if iteration_state f = Some True then
       cost_loop fl iteration_state rest
         (fl (total_cost + fl (base_cost impact * multiplier_if_triggered impact)),
          cost_breakdown(f \<mapsto> Num (fl (base_cost impact * multiplier_if_triggered impact))))
     else
       cost_loop fl iteration_state rest (total_cost, cost_breakdown(f \<mapsto> Num 0)))"

text \<open>The body of one iteration, up to \<open>results.append(cost_breakdown)\<close>.\<close>

definition simulate_iteration ::
  "(real \<Rightarrow> real) \<Rightarrow> nat \<Rightarrow> MonteCarloSimulator \<Rightarrow> BayesianNetworkModel \<Rightarrow> (nat \<Rightarrow> real) \<Rightarrow> nat
    \<Rightarrow> error + row \<times> nat" where
  "simulate_iteration fl d sim m rnd pos =
    (case sample_factors fl d m rnd (map fst (bn_risk_structure m)) pos Map.empty of
       Inl e \<Rightarrow> Inl e
     | Inr (iteration_state, pos') \<Rightarrow>
         (case cost_loop fl iteration_state (cost_impacts (sim_ontology sim))
                 (sim_base_cost sim, [''base'' \<mapsto> Num (sim_base_cost sim)]) of
            (total_cost, cost_breakdown) \<Rightarrow>
              Inr ((cost_breakdown(''total'' \<mapsto> Num total_cost))
                     ++ (\<lambda>k. map_option Flag (iteration_state k)),
                   pos')))"

fun run_loop ::
  "(real \<Rightarrow> real) \<Rightarrow> nat \<Rightarrow> MonteCarloSimulator \<Rightarrow> BayesianNetworkModel \<Rightarrow> (nat \<Rightarrow> real) \<Rightarrow> nat
    \<Rightarrow> nat \<Rightarrow> row list \<Rightarrow> error + row list \<times> nat" where
  "run_loop fl d sim m rnd 0 pos results = Inr (results, pos)"
| "run_loop fl d sim m rnd (Suc k) pos results =
    (case simulate_iteration fl d sim m rnd pos of
       Inl e \<Rightarrow> Inl e
     | Inr (cost_breakdown, pos') \<Rightarrow>
         run_loop fl d sim m rnd k pos' (results @ [cost_breakdown]))"

text \<open>
  \<open>run_simulation\<close>: \<open>range(n_iterations)\<close> is empty for \<open>n_iterations \<le> 0\<close>; the
  source does not look at the sign of its argument.
\<close>

definition run_simulation ::
  "(real \<Rightarrow> real) \<Rightarrow> nat \<Rightarrow> MonteCarloSimulator \<Rightarrow> BayesianNetworkModel \<Rightarrow> (nat \<Rightarrow> real) \<Rightarrow> nat
    \<Rightarrow> int \<Rightarrow> error + row list \<times> nat" where
  "run_simulation fl d sim m rnd pos n_iterations =
    run_loop fl d sim m rnd (nat n_iterations) pos []"

text \<open>
  \<open>analyze_results\<close>. \<open>results['total']\<close> raises \<open>KeyError\<close> when the table has no
  such column (a table built from no rows has no columns); in a row without the key the
  column holds NaN, here \<open>None\<close>.

  The mean, median, standard deviation and quantile of the column are functions of the
  table library, which is not part of the repository: they are the parameter \<open>pd\<close>,
  each returning a value of the library's choosing or raising. The dictionary is built
  entry by entry, so the first of them that raises ends the call, before the two
  fractions are looked at.
\<close>

record 'v pandas =
  series_mean :: "cell option list \<Rightarrow> error + 'v"
  series_median :: "cell option list \<Rightarrow> error + 'v"
  series_std :: "cell option list \<Rightarrow> error + 'v"
  series_quantile :: "cell option list \<Rightarrow> real \<Rightarrow> error + 'v"

record 'v analysis =
  mean_cost :: 'v
  median_cost :: 'v
  std_cost :: 'v
  percentile_10 :: 'v
  percentile_50 :: 'v
  percentile_90 :: 'v
  percentile_95 :: 'v
  prob_over_budget :: real
  prob_over_budget_20 :: real

text \<open>
  \<open>(total_costs > threshold).mean()\<close>: NaN exceeds nothing and a boolean compares as
  0 or 1; the mean of the comparison is the number of rows over the threshold divided by
  the number of rows, one division.
\<close>

fun cell_value :: "cell \<Rightarrow> real" where
  "cell_value (Num x) = x"
| "cell_value (Flag b) = (if b then 1 else 0)"

definition exceeds :: "cell option \<Rightarrow> real \<Rightarrow> bool" where
  "exceeds c threshold = (case c of None \<Rightarrow> False | Some v \<Rightarrow> cell_value v > threshold)"

definition fraction_over :: "(real \<Rightarrow> real) \<Rightarrow> cell option list \<Rightarrow> real \<Rightarrow> real" where
  "fraction_over fl column threshold =
    fl (real (length (filter (\<lambda>c. exceeds c threshold) column)) / real (length column))"

definition analyze_results ::
  "(real \<Rightarrow> real) \<Rightarrow> 'v pandas \<Rightarrow> MonteCarloSimulator \<Rightarrow> row list \<Rightarrow> error + 'v analysis" where
  "analyze_results fl pd sim results =
    (if list_all (\<lambda>r. r ''total'' = None) results then Inl KeyError
     else
       (let total_costs = map (\<lambda>r. r ''total'') results in
        case series_mean pd total_costs of Inl e \<Rightarrow> Inl e | Inr v_mean \<Rightarrow>
        case series_median pd total_costs of Inl e \<Rightarrow> Inl e | Inr v_median \<Rightarrow>
        case series_std pd total_costs of Inl e \<Rightarrow> Inl e | Inr v_std \<Rightarrow>
        case series_quantile pd total_costs (fl 0.10) of Inl e \<Rightarrow> Inl e | Inr v_10 \<Rightarrow>
        case series_quantile pd total_costs (fl 0.50) of Inl e \<Rightarrow> Inl e | Inr v_50 \<Rightarrow>
        case series_quantile pd total_costs (fl 0.90) of Inl e \<Rightarrow> Inl e | Inr v_90 \<Rightarrow>
        case series_quantile pd total_costs (fl 0.95) of Inl e \<Rightarrow> Inl e | Inr v_95 \<Rightarrow>
          Inr \<lparr>mean_cost = v_mean, median_cost = v_median, std_cost = v_std,
               percentile_10 = v_10, percentile_50 = v_50,
               percentile_90 = v_90, percentile_95 = v_95,
               prob_over_budget =
                 fraction_over fl total_costs (fl (sim_base_cost sim * fl 1.1)),
               prob_over_budget_20 =
                 fraction_over fl total_costs (fl (sim_base_cost sim * fl 1.2))\<rparr>))"

section \<open>Layer 3: the decision support system\<close>

record DecisionSupportSystem =
  dss_ontology :: ShipbuildingOntology
  bayesian_model :: BayesianNetworkModel
  simulator :: MonteCarloSimulator

definition DecisionSupportSystem_init :: "ShipbuildingOntology \<Rightarrow> DecisionSupportSystem" where
  "DecisionSupportSystem_init ontology =
    \<lparr>dss_ontology = ontology,
     bayesian_model = BayesianNetworkModel_init ontology,
     simulator = MonteCarloSimulator_init ontology\<rparr>"

text \<open>The loop \<open>for factor, occurred in events.items(): set_evidence(factor, occurred)\<close>.\<close>

fun apply_events :: "BayesianNetworkModel \<Rightarrow> (string \<times> bool) list \<Rightarrow> BayesianNetworkModel" where
  "apply_events m [] = m"
| "apply_events m ((f, occurred) # rest) = apply_events (set_evidence m f occurred) rest"

definition update_status ::
  "DecisionSupportSystem \<Rightarrow> (string \<times> bool) list \<Rightarrow> DecisionSupportSystem" where
  "update_status dss events = dss\<lparr>bayesian_model := apply_events (bayesian_model dss) events\<rparr>"

text \<open>
  \<open>analyze_current_risk\<close> computes all probabilities and prints four of them; it
  returns nothing, and raises what \<open>get_all_probabilities\<close> raises.
\<close>

definition analyze_current_risk ::
  "(real \<Rightarrow> real) \<Rightarrow> nat \<Rightarrow> DecisionSupportSystem \<Rightarrow> error + unit" where
  "analyze_current_risk fl d dss =
    (case get_all_probabilities fl d (bayesian_model dss) of
       Inl e \<Rightarrow> Inl e
     | Inr probs \<Rightarrow> Inr ())"

definition run_cost_simulation ::
  "(real \<Rightarrow> real) \<Rightarrow> 'v pandas \<Rightarrow> nat \<Rightarrow> DecisionSupportSystem \<Rightarrow> (nat \<Rightarrow> real) \<Rightarrow> nat \<Rightarrow> int
    \<Rightarrow> error + (row list \<times> 'v analysis) \<times> nat" where
  "run_cost_simulation fl pd d dss rnd pos n_iterations =
    (case run_simulation fl d (simulator dss) (bayesian_model dss) rnd pos n_iterations of
       Inl e \<Rightarrow> Inl e
     | Inr (results, pos') \<Rightarrow>
         (case analyze_results fl pd (simulator dss) results of
            Inl e \<Rightarrow> Inl e
          | Inr a \<Rightarrow> Inr ((results, a), pos')))"

text \<open>
  \<open>what_if_analysis\<close> returns the outcome (the exception, or the results and the
  position of the random stream) together with the system as the call leaves it. The
  restoring assignment is the last statement before \<open>return\<close>; the source has no
  \<open>try\<close>/\<open>finally\<close>, so an exception leaves the system as it was when raised.
\<close>

definition what_if_analysis ::
  "(real \<Rightarrow> real) \<Rightarrow> 'v pandas \<Rightarrow> nat \<Rightarrow> DecisionSupportSystem \<Rightarrow> (nat \<Rightarrow> real) \<Rightarrow> nat
    \<Rightarrow> (string \<times> bool) list
    \<Rightarrow> (error + (row list \<times> 'v analysis) \<times> nat) \<times> DecisionSupportSystem" where
  "what_if_analysis fl pd d dss rnd pos events =
    (let original_evidence = evidence (bayesian_model dss);
         dss1 = dss\<lparr>bayesian_model := apply_events (bayesian_model dss) events\<rparr>
     in case analyze_current_risk fl d dss1 of
          Inl e \<Rightarrow> (Inl e, dss1)
        | Inr u \<Rightarrow>
            (case run_cost_simulation fl pd d dss1 rnd pos 5000 of
               Inl e \<Rightarrow> (Inl e, dss1)
             | Inr res \<Rightarrow>
                 (Inr res,
                  dss1\<lparr>bayesian_model := (bayesian_model dss1)\<lparr>evidence := original_evidence\<rparr>\<rparr>)))"

section \<open>The marginal as the specification words it\<close>

text \<open>
  The weight of one combination of parent states: the product, over the parent positions,
  of the parent's probability where the combination marks it true and of one minus that
  probability where it marks it false.
\<close>

definition combination_weight :: "(string \<Rightarrow> real) \<Rightarrow> string list \<Rightarrow> bool list \<Rightarrow> real" where
  "combination_weight P ps states =
    (\<Prod>j<length ps. if states ! j then P (ps ! j) else 1 - P (ps ! j))"

text \<open>The table's probability for a combination; a missing combination contributes zero.\<close>

definition cpt_entry :: "(bool list \<rightharpoonup> real) \<Rightarrow> bool list \<Rightarrow> real" where
  "cpt_entry table states = (case table states of Some c \<Rightarrow> c | None \<Rightarrow> 0)"

text \<open>The sum over all ordered truth-state combinations, one state per parent.\<close>

definition cpt_marginal :: "(string \<Rightarrow> real) \<Rightarrow> string list \<Rightarrow> (bool list \<rightharpoonup> real) \<Rightarrow> real" where
  "cpt_marginal P ps table =
    (\<Sum>states\<in>{ss. length ss = length ps}. combination_weight P ps states * cpt_entry table states)"

text \<open>
  The combinations as a list, the state of the first parent changing fastest, and the
  weight by recursion along the parents.
\<close>

fun all_states :: "nat \<Rightarrow> bool list list" where
  "all_states 0 = [[]]"
| "all_states (Suc k) = concat (map (\<lambda>ss. [False # ss, True # ss]) (all_states k))"

fun weight :: "real list \<Rightarrow> bool list \<Rightarrow> real" where
  "weight (p # ps) (s # ss) = (if s then p else 1 - p) * weight ps ss"
| "weight ps ss = 1"

text \<open>
  The same sum in the arithmetic \<open>fl\<close>, where the order of the operations matters: the
  factors of a weight are multiplied from the first parent to the last, starting from
  1.0, and the contributions are added in the order of \<open>all_states\<close>, starting from
  0.0; a combination that the table does not hold leaves the sum as it is.
\<close>

fun rounded_weight :: "(real \<Rightarrow> real) \<Rightarrow> real \<Rightarrow> real list \<Rightarrow> bool list \<Rightarrow> real" where
  "rounded_weight fl acc (p # ps) (s # ss) =
    rounded_weight fl (fl (acc * (if s then p else fl (1 - p)))) ps ss"
| "rounded_weight fl acc ps ss = acc"

definition rounded_marginal ::
  "(real \<Rightarrow> real) \<Rightarrow> (string \<Rightarrow> real) \<Rightarrow> string list \<Rightarrow> (bool list \<rightharpoonup> real) \<Rightarrow> real" where
  "rounded_marginal fl P ps table =
    foldl (\<lambda>total_prob states.
             case table states of
               Some c \<Rightarrow> fl (total_prob + fl (rounded_weight fl 1 (map P ps) states * c))
             | None \<Rightarrow> total_prob)
      0 (all_states (length ps))"

section \<open>Well-formed inputs\<close>

text \<open>
  Every base probability of a root and every entry of every table lies between 0 and 1.
\<close>

definition probabilities_valid :: "BayesianNetworkModel \<Rightarrow> bool" where
  "probabilities_valid m =
    ((\<forall>(f, risk)\<in>set (bn_risk_structure m).
        parents risk = [] \<longrightarrow> 0 \<le> probability risk \<and> probability risk \<le> 1)
     \<and> (\<forall>f table states c.
          cpt m f = Some table \<longrightarrow> table states = Some c \<longrightarrow> 0 \<le> c \<and> c \<le> 1))"

text \<open>
  The parent relation is an acyclic graph: every parent id is registered, and \<open>rank\<close>
  orders the factors so that parents come strictly before their children.
\<close>

definition topological :: "BayesianNetworkModel \<Rightarrow> (string \<Rightarrow> nat) \<Rightarrow> bool" where
  "topological m rank =
    (\<forall>(f, risk)\<in>set (bn_risk_structure m).
       \<forall>p\<in>set (parents risk). map_of (bn_risk_structure m) p \<noteq> None \<and> rank p < rank f)"

text \<open>
  The rounding that the sum over the \<open>2 ^ k\<close> combinations of \<open>k\<close> parents can
  gather in double arithmetic: a contribution takes at most \<open>2 * k + 1\<close> roundings
  (a difference and a product for each parent, and the product with the table entry),
  adding it to the running sum is one more, and a rounding of a number below 2 moves it
  by at most \<open>1 / 2 ^ 53\<close>.
\<close>

definition rounding_slack :: "nat \<Rightarrow> real" where
  "rounding_slack k = 2 ^ k * (2 * real k + 2) / 2 ^ 53"

text \<open>
  Every table belongs to a factor with at most 40 parents, and every entry of it stays
  below 1 by at least that rounding.
\<close>

definition tables_guarded :: "BayesianNetworkModel \<Rightarrow> bool" where
  "tables_guarded m =
    (\<forall>f risk table.
       map_of (bn_risk_structure m) f = Some risk \<longrightarrow> cpt m f = Some table \<longrightarrow>
       length (parents risk) \<le> 40
       \<and> (\<forall>states c. table states = Some c \<longrightarrow> c \<le> 1 - rounding_slack (length (parents risk))))"

text \<open>
  The table library returns each of the seven statistics that \<open>analyze_results\<close>
  asks of a column.
\<close>

definition statistics_return :: "(real \<Rightarrow> real) \<Rightarrow> 'v pandas \<Rightarrow> cell option list \<Rightarrow> bool" where
  "statistics_return fl pd column =
    ((\<exists>v. series_mean pd column = Inr v)
     \<and> (\<exists>v. series_median pd column = Inr v)
     \<and> (\<exists>v. series_std pd column = Inr v)
     \<and> (\<exists>v. series_quantile pd column (fl 0.10) = Inr v)
     \<and> (\<exists>v. series_quantile pd column (fl 0.50) = Inr v)
     \<and> (\<exists>v. series_quantile pd column (fl 0.90) = Inr v)
     \<and> (\<exists>v. series_quantile pd column (fl 0.95) = Inr v))"

text \<open>Every parent id that a registered factor names is itself registered.\<close>

definition parents_registered :: "BayesianNetworkModel \<Rightarrow> bool" where
  "parents_registered m =
    (\<forall>(f, risk)\<in>set (bn_risk_structure m).
       \<forall>p\<in>set (parents risk). map_of (bn_risk_structure m) p \<noteq> None)"

text \<open>
  A path of the evaluation: every factor of the list is registered and names the next one
  among its parents, so that computing the first one calls, nested, down the list.
\<close>

fun evaluation_path :: "BayesianNetworkModel \<Rightarrow> string list \<Rightarrow> bool" where
  "evaluation_path m (f # g # rest) =
    ((case map_of (bn_risk_structure m) f of
        None \<Rightarrow> False
      | Some risk \<Rightarrow> g \<in> set (parents risk))
     \<and> evaluation_path m (g # rest))"
| "evaluation_path m fs = True"

section \<open>The cost of a sample as the specification words it\<close>

text \<open>
  The sum, over the cost-driver factors that the sample marks as occurred, of base cost
  times multiplier.
\<close>

definition occurred_cost :: "(string \<times> CostImpact) list \<Rightarrow> row \<Rightarrow> real" where
  "occurred_cost impacts r =
    (\<Sum>(f, impact)\<leftarrow>impacts.
       if r f = Some (Flag True) then base_cost impact * multiplier_if_triggered impact else 0)"

section \<open>Concrete systems\<close>

text \<open>The model that \<open>DecisionSupportSystem(ShipbuildingOntology())\<close> builds.\<close>

definition sample_model :: BayesianNetworkModel where
  "sample_model = BayesianNetworkModel_init ShipbuildingOntology_init"

text \<open>The base probabilities of the two parents of \<open>block_delay\<close>.\<close>

definition unconditioned :: "string \<Rightarrow> real" where
  "unconditioned p = (if p = ''material_delay'' then round_double 0.30 else round_double 0.25)"

text \<open>The depth of each factor of the sample structure below the roots.\<close>

definition sample_rank :: "string \<Rightarrow> nat" where
  "sample_rank f =
    (if f = ''block_delay'' \<or> f = ''rework'' then 1
     else if f = ''idle_time'' \<or> f = ''material_waste'' \<or> f = ''equipment_extend'' then 2
     else if f = ''overtime'' then 3
     else 0)"

text \<open>Evidence recorded for an id that is not in the risk structure.\<close>

definition ghost_evidence_model :: BayesianNetworkModel where
  "ghost_evidence_model = set_evidence sample_model ''ghost'' True"

text \<open>The simulator of the sample system, and a random stream that always draws 0.5.\<close>

definition sample_simulator :: MonteCarloSimulator where
  "sample_simulator = MonteCarloSimulator_init ShipbuildingOntology_init"

definition half_draws :: "nat \<Rightarrow> real" where
  "half_draws i = 1 / 2"

text \<open>Two factors that are each other's parent.\<close>

definition cyclic_model :: BayesianNetworkModel where
  "cyclic_model =
    \<lparr>bn_risk_structure =
       [(''a'', \<lparr>name = ''a'', probability = 0, parents = [''b'']\<rparr>),
        (''b'', \<lparr>name = ''b'', probability = 0, parents = [''a'']\<rparr>)],
     cpt = Map.empty,
     evidence = Map.empty\<rparr>"

text \<open>
  Two roots with the base probabilities 0.08 and 0.19 and their child, whose table holds
  1.0 for every combination.
\<close>

definition certain_child_model :: BayesianNetworkModel where
  "certain_child_model =
    \<lparr>bn_risk_structure =
       [(''a'', \<lparr>name = ''a'', probability = round_double 0.08, parents = []\<rparr>),
        (''b'', \<lparr>name = ''b'', probability = round_double 0.19, parents = []\<rparr>),
        (''c'', \<lparr>name = ''c'', probability = 0, parents = [''a'', ''b'']\<rparr>)],
     cpt = [''c'' \<mapsto> cpt2 1 1 1 1],
     evidence = Map.empty\<rparr>"

definition certain_child_rank :: "string \<Rightarrow> nat" where
  "certain_child_rank f = (if f = ''c'' then 1 else 0)"

text \<open>
  A risk structure in which \<open>rework\<close> names a parent that is not registered, as
  the RDF connector builds from a \<open>causes\<close> triple whose subject is no risk factor.
\<close>

definition dangling_ontology :: ShipbuildingOntology where
  "dangling_ontology =
    \<lparr>risk_structure =
       [(''rework'', \<lparr>name = ''rework'', probability = 0, parents = [''design_change'']\<rparr>)],
     cost_impacts = build_cost_impacts\<rparr>"

text \<open>A risk structure with a factor whose id is \<open>total\<close>.\<close>

definition total_clash_ontology :: ShipbuildingOntology where
  "total_clash_ontology =
    \<lparr>risk_structure = [(''total'', \<lparr>name = ''total'', probability = 0.5, parents = []\<rparr>)],
     cost_impacts = build_cost_impacts\<rparr>"

text \<open>
  A table library for the examples: the quantile, which interpolates between entries of
  the column, raises \<open>TypeError\<close> on a column that holds a boolean; every other
  statistic returns. The values it returns play no part.
\<close>

definition holds_boolean :: "cell option list \<Rightarrow> bool" where
  "holds_boolean column = list_ex (\<lambda>c. case c of Some (Flag b) \<Rightarrow> True | _ \<Rightarrow> False) column"

definition strict_pandas :: "unit pandas" where
  "strict_pandas =
    \<lparr>series_mean = (\<lambda>column. Inr ()),
     series_median = (\<lambda>column. Inr ()),
     series_std = (\<lambda>column. Inr ()),
     series_quantile = (\<lambda>column q. if holds_boolean column then Inl TypeError else Inr ())\<rparr>"

section \<open>Properties\<close>

subsection \<open>Rounding to a double\<close>

lemma rne_of_int: "rne (of_int n) = n"
  by (simp add: rne_def)

lemma rne_bounds: "\<lfloor>x\<rfloor> \<le> rne x \<and> rne x \<le> \<lfloor>x\<rfloor> + 1"
  by (simp add: rne_def)

lemma rne_mono: "x \<le> y \<Longrightarrow> rne x \<le> rne y"
proof -
  assume xy: "x \<le> y"
  then have f: "\<lfloor>x\<rfloor> \<le> \<lfloor>y\<rfloor>" by (rule floor_mono)
  show ?thesis
  proof (cases "\<lfloor>x\<rfloor> = \<lfloor>y\<rfloor>")
    case True
    with xy show ?thesis by (auto simp: rne_def)
  next
    case False
    with f have "\<lfloor>x\<rfloor> + 1 \<le> \<lfloor>y\<rfloor>" by simp
    with rne_bounds [of x] rne_bounds [of y] show ?thesis by linarith
  qed
qed

lemma ulp_pos: "0 < ulp x"
  by (simp add: ulp_def)

lemma round_double_scaled:
  assumes lo: "2 ^ 52 \<le> \<bar>x\<bar> * 2 ^ n" and hi: "\<bar>x\<bar> * 2 ^ n < 2 ^ 53" and n: "n \<le> 1074"
  shows "round_double x = of_int (rne (x * 2 ^ n)) / 2 ^ n"
proof -
  from lo have x0: "x \<noteq> 0" by auto
  then have pos: "0 < \<bar>x\<bar>" by simp
  have q: "2 powr (real k - real n) = (2::real) ^ k / 2 ^ n" for k
    by (simp add: powr_diff powr_realpow)
  have p: "2 powr (of_int (52 - int n)) = (2::real) ^ 52 / 2 ^ n"
    using q [of 52] by simp
  have p1: "2 powr (of_int (52 - int n + 1)) = (2::real) ^ 53 / 2 ^ n"
    using q [of 53] by (simp add: algebra_simps)
  have "2 powr (of_int (52 - int n)) \<le> \<bar>x\<bar>"
    unfolding p using lo by (simp add: field_simps)
  moreover have "\<bar>x\<bar> < 2 powr (of_int (52 - int n + 1))"
    unfolding p1 using hi by (simp add: field_simps)
  ultimately have "\<lfloor>log 2 \<bar>x\<bar>\<rfloor> = 52 - int n"
    using floor_log_eq_powr_iff [of "\<bar>x\<bar>" 2 "52 - int n"] pos by simp
  with n have "exponent x = 52 - int n" by (simp add: exponent_def)
  then have "ulp x = 2 powr (- real n)" by (simp add: ulp_def)
  then have u: "ulp x = 1 / 2 ^ n" by (simp add: powr_minus powr_realpow inverse_eq_divide)
  show ?thesis using x0 by (simp add: round_double_def u)
qed

lemma round_double_0: "round_double 0 = 0"
  by (simp add: round_double_def)

lemma round_double_1: "round_double 1 = 1"
  using round_double_scaled [of 1 52] rne_of_int [of "2 ^ 52"] by simp

lemma ulp_scale: "ulp x * 2 ^ 52 = 2 powr (of_int (exponent x))"
proof -
  have "(2::real) powr (of_int (exponent x)) = 2 powr ((of_int (exponent x) - 52) + 52)" by simp
  also have "\<dots> = 2 powr (of_int (exponent x) - 52) * 2 powr 52" by (rule powr_add)
  finally show ?thesis by (simp add: ulp_def)
qed

lemma ulp_scale_Suc: "ulp x * 2 ^ 53 = 2 powr (of_int (exponent x) + 1)"
proof -
  have "(2::real) powr (of_int (exponent x) + 1) = 2 powr (of_int (exponent x)) * 2 powr 1"
    by (rule powr_add)
  also have "\<dots> = ulp x * 2 ^ 52 * 2" unfolding ulp_scale by simp
  finally show ?thesis by simp
qed

lemma below_next_power:
  assumes "0 < x"
  shows "x < 2 powr (of_int (exponent x) + 1)"
proof -
  have "log 2 x < of_int \<lfloor>log 2 x\<rfloor> + 1" by linarith
  also have "\<dots> \<le> of_int (exponent x) + 1"
    using assms by (simp add: exponent_def)
  finally have "2 powr (log 2 x) < 2 powr (of_int (exponent x) + 1)" by simp
  with assms show ?thesis by simp
qed

lemma above_own_power:
  assumes "0 < x" and "- 1022 \<le> \<lfloor>log 2 x\<rfloor>"
  shows "2 powr (of_int (exponent x)) \<le> x"
proof -
  from assms have "exponent x = \<lfloor>log 2 x\<rfloor>" by (simp add: exponent_def)
  then have "of_int (exponent x) \<le> log 2 x" by simp
  then have "2 powr (of_int (exponent x)) \<le> 2 powr (log 2 x)" by simp
  with assms show ?thesis by simp
qed

lemma exponent_mono:
  assumes "0 < x" and "x \<le> y"
  shows "exponent x \<le> exponent y"
proof -
  from assms have "log 2 x \<le> log 2 y" by simp
  then have "\<lfloor>log 2 x\<rfloor> \<le> \<lfloor>log 2 y\<rfloor>" by (rule floor_mono)
  with assms show ?thesis by (simp add: exponent_def)
qed

lemma round_double_nonneg:
  assumes "0 \<le> x"
  shows "0 \<le> round_double x"
proof (cases "x = 0")
  case True
  then show ?thesis by (simp add: round_double_def)
next
  case False
  from assms ulp_pos [of x] have "0 \<le> x / ulp x" by simp
  then have "rne 0 \<le> rne (x / ulp x)" by (rule rne_mono)
  then have "0 \<le> rne (x / ulp x)" using rne_of_int [of 0] by simp
  with False ulp_pos [of x] show ?thesis by (simp add: round_double_def)
qed

lemma round_double_le_next_power:
  assumes "0 < x"
  shows "round_double x \<le> 2 powr (of_int (exponent x) + 1)"
proof -
  from below_next_power [OF assms] have "x < ulp x * 2 ^ 53"
    by (simp only: ulp_scale_Suc)
  then have "x \<le> ulp x * 2 ^ 53" by (rule less_imp_le)
  with ulp_pos [of x] have "x / ulp x \<le> of_int (2 ^ 53)"
    by (simp add: field_simps)
  then have "rne (x / ulp x) \<le> rne (of_int (2 ^ 53))" by (rule rne_mono)
  then have "rne (x / ulp x) \<le> 2 ^ 53" by (simp only: rne_of_int)
  then have "real_of_int (rne (x / ulp x)) \<le> 2 ^ 53"
    by (metis of_int_le_iff of_int_numeral of_int_power)
  with ulp_pos [of x] have "of_int (rne (x / ulp x)) * ulp x \<le> 2 ^ 53 * ulp x"
    by (simp add: mult_right_mono)
  with assms show ?thesis by (simp add: round_double_def ulp_scale_Suc [symmetric] mult.commute)
qed

lemma round_double_ge_own_power:
  assumes "0 < x" and "- 1022 \<le> \<lfloor>log 2 x\<rfloor>"
  shows "2 powr (of_int (exponent x)) \<le> round_double x"
proof -
  from above_own_power [OF assms] have "ulp x * 2 ^ 52 \<le> x"
    by (simp only: ulp_scale)
  with ulp_pos [of x] have "of_int (2 ^ 52) \<le> x / ulp x"
    by (simp add: field_simps)
  then have "rne (of_int (2 ^ 52)) \<le> rne (x / ulp x)" by (rule rne_mono)
  then have "2 ^ 52 \<le> rne (x / ulp x)" by (simp only: rne_of_int)
  then have "2 ^ 52 \<le> real_of_int (rne (x / ulp x))"
    by (metis of_int_le_iff of_int_numeral of_int_power)
  with ulp_pos [of x] have "2 ^ 52 * ulp x \<le> of_int (rne (x / ulp x)) * ulp x"
    by (simp add: mult_right_mono)
  with assms show ?thesis by (simp add: round_double_def ulp_scale [symmetric] mult.commute)
qed

lemma round_double_mono:
  assumes "0 \<le> x" and "x \<le> y"
  shows "round_double x \<le> round_double y"
proof (cases "x = 0")
  case True
  with assms round_double_nonneg [of y] show ?thesis by (simp add: round_double_0)
next
  case False
  with assms have x: "0 < x" and y: "0 < y" by auto
  from exponent_mono [OF x assms(2)] have e: "exponent x \<le> exponent y" .
  show ?thesis
  proof (cases "exponent x = exponent y")
    case True
    then have u: "ulp y = ulp x" by (simp add: ulp_def)
    from assms(2) ulp_pos [of x] have "x / ulp x \<le> y / ulp x"
      by (simp add: divide_right_mono)
    then have "rne (x / ulp x) \<le> rne (y / ulp x)" by (rule rne_mono)
    with ulp_pos [of x] have "of_int (rne (x / ulp x)) * ulp x \<le> of_int (rne (y / ulp x)) * ulp x"
      by (simp add: mult_right_mono)
    with x y u show ?thesis by (simp add: round_double_def)
  next
    case False
    with e have lt: "exponent x + 1 \<le> exponent y" by simp
    have "- 1022 \<le> exponent x" by (simp add: exponent_def)
    with lt have "- 1022 < exponent y" by simp
    then have ne: "exponent y \<noteq> - 1022" by simp
    have "\<bar>y\<bar> = y" using y by simp
    with ne have "exponent y = \<lfloor>log 2 y\<rfloor>"
      unfolding exponent_def by (simp add: max_def split: if_splits)
    with \<open>- 1022 < exponent y\<close> have fl: "- 1022 \<le> \<lfloor>log 2 y\<rfloor>" by linarith
    have "round_double x \<le> 2 powr (of_int (exponent x) + 1)"
      using x by (rule round_double_le_next_power)
    also have "\<dots> \<le> 2 powr (of_int (exponent y))"
    proof -
      from lt have "real_of_int (exponent x + 1) \<le> real_of_int (exponent y)"
        by (simp only: of_int_le_iff)
      then have "real_of_int (exponent x) + 1 \<le> real_of_int (exponent y)" by simp
      then show ?thesis by simp
    qed
    also have "\<dots> \<le> round_double y"
      using y fl by (rule round_double_ge_own_power)
    finally show ?thesis .
  qed
qed

lemma round_double_unit:
  assumes "0 \<le> x" and "x \<le> 1"
  shows "0 \<le> round_double x \<and> round_double x \<le> 1"
  using round_double_nonneg [OF assms(1)] round_double_mono [OF assms] round_double_1
  by simp

lemma rne_error: "\<bar>of_int (rne x) - x\<bar> \<le> 1 / 2"
  unfolding rne_def by (auto simp: abs_if) linarith+

lemma ulp_below_two:
  assumes "0 < x" and "x < 2"
  shows "ulp x \<le> 1 / 2 ^ 52"
proof -
  from assms have "log 2 x < log 2 2" by simp
  then have "log 2 x < 1" by simp
  then have "\<lfloor>log 2 x\<rfloor> \<le> 0" by linarith
  with assms have "exponent x \<le> 0" by (simp add: exponent_def)
  then have "real_of_int (exponent x) - 52 \<le> - 52" by simp
  then have "2 powr (real_of_int (exponent x) - 52) \<le> 2 powr (- 52)"
    by (simp only: powr_le_cancel_iff) 
  also have "\<dots> = 1 / (2::real) ^ 52"
    by (simp add: powr_minus_divide)
  finally show ?thesis by (simp add: ulp_def)
qed

lemma round_double_error:
  assumes "0 \<le> x" and "x < 2"
  shows "\<bar>round_double x - x\<bar> \<le> 1 / 2 ^ 53"
proof (cases "x = 0")
  case True
  then show ?thesis by (simp add: round_double_def)
next
  case False
  with assms have x: "0 < x" by simp
  have u: "0 < ulp x" by (rule ulp_pos)
  have "round_double x - x = (of_int (rne (x / ulp x)) - x / ulp x) * ulp x"
    using False u by (simp add: round_double_def field_simps)
  then have "\<bar>round_double x - x\<bar> = \<bar>of_int (rne (x / ulp x)) - x / ulp x\<bar> * ulp x"
    using u by (simp add: abs_mult)
  also have "\<dots> \<le> (1 / 2) * ulp x"
    using rne_error [of "x / ulp x"] u by (simp add: mult_right_mono)
  also have "\<dots> \<le> (1 / 2) * (1 / 2 ^ 52)"
    using ulp_below_two [OF x assms(2)] by simp
  finally show ?thesis by simp
qed

subsection \<open>The enumeration of parent states\<close>

lemma collect_map_Inr:
  "(\<And>x. x \<in> set xs \<Longrightarrow> f x = Inr (g x)) \<Longrightarrow> collect (map f xs) = Inr (map g xs)"
  by (induction xs) auto

lemma collect_map_Inl:
  "x \<in> set xs \<Longrightarrow> f x = Inl e \<Longrightarrow> \<exists>e'. collect (map f xs) = Inl e'"
proof (induction xs)
  case Nil
  then show ?case by simp
next
  case (Cons y ys)
  show ?case
  proof (cases "f y")
    case (Inl a)
    then show ?thesis by simp
  next
    case (Inr b)
    with Cons have "x \<in> set ys" by auto
    with Cons obtain e' where "collect (map f ys) = Inl e'" by blast
    with Inr show ?thesis by simp
  qed
qed

lemma combination_prob_rounded:
  "(\<And>p. p \<in> set ps \<Longrightarrow> prob p = Inr (P p)) \<Longrightarrow> length ss = length ps \<Longrightarrow>
   combination_prob fl prob (zip ps ss) acc = Inr (rounded_weight fl acc (map P ps) ss)"
proof (induction ps arbitrary: ss acc)
  case Nil
  then show ?case by simp
next
  case (Cons p ps)
  then obtain s ss' where ss: "ss = s # ss'" by (cases ss) auto
  with Cons.prems have len: "length ss' = length ps" by simp
  have "combination_prob fl prob (zip ps ss') a = Inr (rounded_weight fl a (map P ps) ss')" for a
    using Cons.IH [OF _ len] Cons.prems(1) by simp
  with Cons.prems(1) ss show ?case by simp
qed

lemma rounded_weight_exact:
  "rounded_weight (\<lambda>x. x) acc qs ss = acc * weight qs ss"
  by (induction "\<lambda>x::real. x" acc qs ss rule: rounded_weight.induct) (simp_all add: mult.assoc)

lemma weight_combination_weight:
  "length ss = length ps \<Longrightarrow> weight (map P ps) ss = combination_weight P ps ss"
proof (induction ps arbitrary: ss)
  case Nil
  then show ?case by (simp add: combination_weight_def)
next
  case (Cons p ps)
  then obtain s ss' where ss: "ss = s # ss'" by (cases ss) auto
  with Cons.prems have len: "length ss' = length ps" by simp
  have "(\<Prod>j<Suc (length ps). if ss ! j then P ((p # ps) ! j) else 1 - P ((p # ps) ! j))
        = (if s then P p else 1 - P p)
          * (\<Prod>j<length ps. if ss' ! j then P (ps ! j) else 1 - P (ps ! j))"
    by (simp add: prod.lessThan_Suc_shift ss del: prod.lessThan_Suc cong: if_cong)
  with Cons.IH [OF len] ss show ?case
    by (simp add: combination_weight_def del: prod.lessThan_Suc)
qed

lemma cpt_loop_fold:
  assumes "\<And>p. p \<in> set ps \<Longrightarrow> prob p = Inr (P p)"
  shows "cpt_loop fl prob ps table idxs tot =
    Inr (foldl (\<lambda>total_prob states.
                  case table states of
                    Some c \<Rightarrow> fl (total_prob + fl (rounded_weight fl 1 (map P ps) states * c))
                  | None \<Rightarrow> total_prob)
           tot (map (parent_states (length ps)) idxs))"
proof (induction idxs arbitrary: tot)
  case Nil
  then show ?case by simp
next
  case (Cons i idxs)
  have len: "length (parent_states (length ps) i) = length ps"
    by (simp add: parent_states_def)
  have c: "combination_prob fl prob (zip ps (parent_states (length ps) i)) 1
            = Inr (rounded_weight fl 1 (map P ps) (parent_states (length ps) i))"
    using assms len by (rule combination_prob_rounded)
  show ?case
    by (cases "table (parent_states (length ps) i)") (simp_all add: c Cons.IH)
qed

lemma parent_states_Suc:
  "parent_states (Suc k) i = odd i # parent_states k (i div 2)"
proof -
  have b: "(and n (push_bit j 1) \<noteq> 0) = bit n j" for n j :: nat
    by (simp add: bit_iff_and_push_bit_not_eq_0)
  have "map (bit i) [0..<Suc k] = bit i 0 # map (\<lambda>j. bit i (Suc j)) [0..<k]"
    by (simp add: upt_conv_Cons map_Suc_upt [symmetric] del: upt_Suc)
  then show ?thesis
    unfolding parent_states_def b by (simp add: bit_0 bit_Suc del: upt_Suc)
qed

lemma upt_double:
  "[0..<2 * n] = concat (map (\<lambda>m. [2 * m, Suc (2 * m)]) [0..<n])"
  by (induction n) simp_all

lemma map_parent_states_all:
  "map (parent_states k) [0..<2 ^ k] = all_states k"
proof (induction k)
  case 0
  then show ?case by (simp add: parent_states_def)
next
  case (Suc k)
  have "map (parent_states (Suc k)) [0..<2 ^ Suc k]
        = concat (map (\<lambda>m. [False # parent_states k m, True # parent_states k m]) [0..<2 ^ k])"
    by (simp add: upt_double map_concat parent_states_Suc comp_def del: upt_Suc)
  also have "\<dots> = concat (map (\<lambda>ss. [False # ss, True # ss]) (map (parent_states k) [0..<2 ^ k]))"
    by (simp add: comp_def)
  finally show ?case by (simp add: Suc.IH)
qed

lemma set_all_states: "set (all_states k) = {ss. length ss = k}"
proof (induction k)
  case 0
  then show ?case by simp
next
  case (Suc k)
  show ?case
  proof (rule set_eqI)
    fix ss :: "bool list"
    show "ss \<in> set (all_states (Suc k)) \<longleftrightarrow> ss \<in> {ss. length ss = Suc k}"
      using Suc.IH by (cases ss) auto
  qed
qed

lemma distinct_all_states: "distinct (all_states k)"
proof (induction k)
  case 0
  then show ?case by simp
next
  case (Suc k)
  have "distinct (map (\<lambda>ss. [False # ss, True # ss]) (all_states k))"
    using Suc.IH by (simp add: distinct_map inj_on_def)
  then have "distinct (concat (map (\<lambda>ss. [False # ss, True # ss]) (all_states k)))"
    by (rule distinct_concat) auto
  then show ?case by simp
qed

lemma sum_list_all_states:
  "(\<Sum>ss\<leftarrow>all_states k. g ss) = (\<Sum>ss\<in>{ss. length ss = k}. (g ss :: real))"
  using sum_list_distinct_conv_sum_set [OF distinct_all_states, of g k]
  by (simp add: set_all_states)

lemma cpt_loop_rounded:
  assumes "\<And>p. p \<in> set ps \<Longrightarrow> prob p = Inr (P p)"
  shows "cpt_loop fl prob ps table [0..<2 ^ length ps] 0 = Inr (rounded_marginal fl P ps table)"
proof -
  have "cpt_loop fl prob ps table [0..<2 ^ length ps] 0 =
    Inr (foldl (\<lambda>total_prob states.
                  case table states of
                    Some c \<Rightarrow> fl (total_prob + fl (rounded_weight fl 1 (map P ps) states * c))
                  | None \<Rightarrow> total_prob)
           0 (map (parent_states (length ps)) [0..<2 ^ length ps]))"
    using assms by (rule cpt_loop_fold)
  then show ?thesis
    by (simp only: map_parent_states_all rounded_marginal_def)
qed

lemma cpt_marginal_list:
  "cpt_marginal P ps table =
    (\<Sum>ss\<leftarrow>all_states (length ps). weight (map P ps) ss * cpt_entry table ss)"
proof -
  have "(\<Sum>ss\<in>{ss. length ss = length ps}. weight (map P ps) ss * cpt_entry table ss)
        = cpt_marginal P ps table"
    unfolding cpt_marginal_def
    by (rule sum.cong) (simp_all add: weight_combination_weight)
  then show ?thesis by (simp add: sum_list_all_states)
qed

lemma foldl_contributions:
  "foldl (\<lambda>total_prob states.
            case table states of
              Some c \<Rightarrow> total_prob + g states * c
            | None \<Rightarrow> total_prob) tot xs
    = tot + (\<Sum>ss\<leftarrow>xs. (g ss :: real) * cpt_entry table ss)"
proof (induction xs arbitrary: tot)
  case Nil
  then show ?case by simp
next
  case (Cons x xs)
  show ?case
    by (cases "table x") (simp_all add: Cons.IH cpt_entry_def add.assoc)
qed

lemma rounded_marginal_exact:
  "rounded_marginal (\<lambda>x. x) P ps table = cpt_marginal P ps table"
  by (simp add: rounded_marginal_def rounded_weight_exact foldl_contributions cpt_marginal_list)

lemma calculate_probability_Suc_parents:
  assumes "map_of (bn_risk_structure m) f = Some risk"
    and "parents risk \<noteq> []" and "evidence m f = None"
  shows "calculate_probability fl (Suc d) m f =
    (case collect (map (\<lambda>p. calculate_probability fl d m p) (parents risk)) of
       Inl e \<Rightarrow> Inl e
     | Inr parent_probs \<Rightarrow>
        (case cpt m f of
           None \<Rightarrow> Inr (fl (1 - np_prod fl (map (\<lambda>p. fl (1 - p)) parent_probs)))
         | Some table \<Rightarrow>
             cpt_loop fl (\<lambda>p. calculate_probability fl d m p) (parents risk) table
               [0..<2 ^ length (parents risk)] 0))"
  using assms by simp

lemma calculate_probability_Suc_direct:
  assumes "map_of (bn_risk_structure m) f = Some risk"
    and "parents risk = [] \<or> evidence m f \<noteq> None"
  shows "\<exists>x. calculate_probability fl (Suc d) m f = Inr x"
  using assms by (auto split: option.splits)

lemma calculate_probability_Suc_value:
  assumes r: "map_of (bn_risk_structure m) f = Some risk"
    and np: "parents risk \<noteq> []" and ev: "evidence m f = None"
    and P: "\<And>p. p \<in> set (parents risk) \<Longrightarrow> calculate_probability fl d m p = Inr (P p)"
  shows "calculate_probability fl (Suc d) m f =
    Inr (case cpt m f of
           None \<Rightarrow> fl (1 - np_prod fl (map (\<lambda>p. fl (1 - p)) (map P (parents risk))))
         | Some table \<Rightarrow> rounded_marginal fl P (parents risk) table)"
proof -
  have c: "collect (map (\<lambda>p. calculate_probability fl d m p) (parents risk))
        = Inr (map P (parents risk))"
    using P by (rule collect_map_Inr)
  have l: "cpt_loop fl (\<lambda>p. calculate_probability fl d m p) (parents risk) table
        [0..<2 ^ length (parents risk)] 0 = Inr (rounded_marginal fl P (parents risk) table)"
    for table
    using P by (rule cpt_loop_rounded)
  show ?thesis
    unfolding calculate_probability_Suc_parents [OF r np ev] c
    by (cases "cpt m f") (simp_all add: l)
qed

subsection \<open>Bounds on weights and marginals\<close>

lemma weight_nonneg:
  "(\<And>p. p \<in> set qs \<Longrightarrow> 0 \<le> p \<and> p \<le> 1) \<Longrightarrow> 0 \<le> weight qs ss"
  by (induction qs ss rule: weight.induct) simp_all

lemma sum_list_both_states:
  "(\<Sum>ss\<leftarrow>concat (map (\<lambda>ss. [False # ss, True # ss]) xs). (g ss :: real))
    = (\<Sum>ss\<leftarrow>xs. g (False # ss) + g (True # ss))"
  by (induction xs) simp_all

lemma sum_list_all_states_Suc:
  "(\<Sum>ss\<leftarrow>all_states (Suc k). (g ss :: real))
    = (\<Sum>ss\<leftarrow>all_states k. g (False # ss) + g (True # ss))"
  by (simp add: sum_list_both_states)

lemma weight_sum_one:
  "(\<Sum>ss\<leftarrow>all_states (length qs). weight qs ss) = 1"
proof (induction qs)
  case Nil
  then show ?case by simp
next
  case (Cons q qs)
  have "(\<Sum>ss\<leftarrow>all_states (length (q # qs)). weight (q # qs) ss)
        = (\<Sum>ss\<leftarrow>all_states (length qs). weight (q # qs) (False # ss) + weight (q # qs) (True # ss))"
    using sum_list_all_states_Suc [of "weight (q # qs)" "length qs"] by simp
  also have "\<dots> = (\<Sum>ss\<leftarrow>all_states (length qs). weight qs ss)"
    by (simp add: algebra_simps)
  finally show ?case using Cons.IH by simp
qed

lemma cpt_entry_bounds:
  "(\<And>states c. table states = Some c \<Longrightarrow> 0 \<le> c \<and> c \<le> 1) \<Longrightarrow>
   0 \<le> cpt_entry table ss \<and> cpt_entry table ss \<le> 1"
  by (simp add: cpt_entry_def split: option.splits)

lemma cpt_marginal_bounds:
  assumes P: "\<And>p. p \<in> set ps \<Longrightarrow> 0 \<le> P p \<and> P p \<le> 1"
    and T: "\<And>states c. table states = Some c \<Longrightarrow> 0 \<le> c \<and> c \<le> 1"
  shows "0 \<le> cpt_marginal P ps table \<and> cpt_marginal P ps table \<le> 1"
proof -
  have w: "0 \<le> weight (map P ps) ss" for ss
    by (rule weight_nonneg) (use P in auto)
  have c: "0 \<le> cpt_entry table ss \<and> cpt_entry table ss \<le> 1" for ss
    using T by (rule cpt_entry_bounds)
  have lo: "0 \<le> (\<Sum>ss\<leftarrow>all_states (length ps). weight (map P ps) ss * cpt_entry table ss)"
    by (rule sum_list_nonneg) (use w c in auto)
  have "(\<Sum>ss\<leftarrow>all_states (length ps). weight (map P ps) ss * cpt_entry table ss)
        \<le> (\<Sum>ss\<leftarrow>all_states (length ps). weight (map P ps) ss)"
  proof (rule sum_list_mono)
    fix ss
    from w [of ss] c [of ss] show "weight (map P ps) ss * cpt_entry table ss \<le> weight (map P ps) ss"
      by (simp add: mult_left_le)
  qed
  also have "\<dots> = 1"
    using weight_sum_one [of "map P ps"] by simp
  finally show ?thesis using lo by (simp add: cpt_marginal_list)
qed

lemma cpt_marginal_le:
  assumes P: "\<And>p. p \<in> set ps \<Longrightarrow> 0 \<le> P p \<and> P p \<le> 1"
    and T: "\<And>states c. table states = Some c \<Longrightarrow> c \<le> b"
    and b: "0 \<le> b"
  shows "cpt_marginal P ps table \<le> b"
proof -
  have w: "0 \<le> weight (map P ps) ss" for ss
    by (rule weight_nonneg) (use P in auto)
  have c: "cpt_entry table ss \<le> b" for ss
    using T b by (simp add: cpt_entry_def split: option.splits)
  have "(\<Sum>ss\<leftarrow>all_states (length ps). weight (map P ps) ss * cpt_entry table ss)
        \<le> (\<Sum>ss\<leftarrow>all_states (length ps). weight (map P ps) ss * b)"
  proof (rule sum_list_mono)
    fix ss
    from w [of ss] c [of ss] show "weight (map P ps) ss * cpt_entry table ss \<le> weight (map P ps) ss * b"
      by (rule mult_left_mono [rotated])
  qed
  also have "\<dots> = (\<Sum>ss\<leftarrow>all_states (length ps). weight (map P ps) ss) * b"
    by (simp add: sum_list_mult_const)
  also have "\<dots> = b"
    using weight_sum_one [of "map P ps"] by simp
  finally show ?thesis by (simp add: cpt_marginal_list)
qed

subsection \<open>Rounding in the sum over the combinations\<close>

lemma rounded_weight_close:
  assumes Q: "\<And>p. p \<in> set qs \<Longrightarrow> 0 \<le> p \<and> p \<le> 1"
  shows "0 \<le> acc \<Longrightarrow> acc \<le> 1 \<Longrightarrow> 0 \<le> a \<Longrightarrow> a \<le> 1 \<Longrightarrow>
    0 \<le> rounded_weight round_double a qs ss \<and> rounded_weight round_double a qs ss \<le> 1
    \<and> \<bar>rounded_weight round_double a qs ss - acc * weight qs ss\<bar>
        \<le> \<bar>a - acc\<bar> + 2 * real (length qs) / 2 ^ 53"
  using Q
proof (induction qs arbitrary: ss a acc)
  case Nil
  then show ?case by simp
next
  case (Cons q qs)
  show ?case
  proof (cases ss)
    case Nil
    with Cons.prems show ?thesis by simp
  next
    case (Cons s ss')
    define f where "f = (if s then q else 1 - q)"
    define f' where "f' = (if s then q else round_double (1 - q))"
    define a' where "a' = round_double (a * f')"
    define u :: real where "u = 1 / 2 ^ 53"
    from Cons.prems(5) have q: "0 \<le> q" "q \<le> 1" by auto
    then have f: "0 \<le> f" "f \<le> 1" by (auto simp: f_def)
    have f': "0 \<le> f'" "f' \<le> 1"
      using q round_double_unit [of "1 - q"] by (auto simp: f'_def)
    have ff: "\<bar>f' - f\<bar> \<le> u"
      using q round_double_error [of "1 - q"] by (auto simp: f_def f'_def u_def)
    from Cons.prems(3,4) f' have af: "0 \<le> a * f'" "a * f' \<le> 1"
      by (auto intro: mult_le_one)
    then have a': "0 \<le> a'" "a' \<le> 1"
      using round_double_unit [of "a * f'"] by (auto simp: a'_def)
    from af have r: "\<bar>a' - a * f'\<bar> \<le> u"
      unfolding a'_def u_def by (intro round_double_error) auto
    from Cons.prems(1,2) f have accf: "0 \<le> acc * f" "acc * f \<le> 1"
      by (auto intro: mult_le_one)
    have "a * f' - acc * f = a * (f' - f) + (a - acc) * f" by (simp add: algebra_simps)
    then have "\<bar>a * f' - acc * f\<bar> \<le> \<bar>a * (f' - f)\<bar> + \<bar>(a - acc) * f\<bar>"
      by (metis abs_triangle_ineq)
    also have "\<bar>a * (f' - f)\<bar> = a * \<bar>f' - f\<bar>"
      using Cons.prems(3) by (simp add: abs_mult)
    also have "\<bar>(a - acc) * f\<bar> = \<bar>a - acc\<bar> * f"
      using f by (simp add: abs_mult)
    finally have "\<bar>a * f' - acc * f\<bar> \<le> a * \<bar>f' - f\<bar> + \<bar>a - acc\<bar> * f" .
    moreover have "a * \<bar>f' - f\<bar> \<le> 1 * u"
      using Cons.prems(3,4) ff by (intro mult_mono) auto
    moreover have "\<bar>a - acc\<bar> * f \<le> \<bar>a - acc\<bar> * 1"
      using f by (intro mult_left_mono) auto
    ultimately have "\<bar>a * f' - acc * f\<bar> \<le> u + \<bar>a - acc\<bar>" by simp
    with r have d: "\<bar>a' - acc * f\<bar> \<le> \<bar>a - acc\<bar> + 2 * u" by linarith
    have Q': "\<And>p. p \<in> set qs \<Longrightarrow> 0 \<le> p \<and> p \<le> 1"
      using Cons.prems(5) by simp
    from Cons.IH [OF accf a' Q', of ss']
    have ih: "0 \<le> rounded_weight round_double a' qs ss'"
      "rounded_weight round_double a' qs ss' \<le> 1"
      "\<bar>rounded_weight round_double a' qs ss' - acc * f * weight qs ss'\<bar>
        \<le> \<bar>a' - acc * f\<bar> + 2 * real (length qs) / 2 ^ 53"
      by auto
    have e1: "rounded_weight round_double a (q # qs) ss = rounded_weight round_double a' qs ss'"
      by (simp add: Cons a'_def f'_def)
    have e2: "acc * weight (q # qs) ss = acc * f * weight qs ss'"
      by (simp add: Cons f_def)
    have "2 * real (length (q # qs)) / 2 ^ 53 = 2 * u + 2 * real (length qs) / 2 ^ 53"
      by (simp add: u_def)
    with ih(3) d
    have "\<bar>rounded_weight round_double a' qs ss' - acc * f * weight qs ss'\<bar>
        \<le> \<bar>a - acc\<bar> + 2 * real (length (q # qs)) / 2 ^ 53"
      by linarith
    with ih(1,2) show ?thesis unfolding e1 e2 by simp
  qed
qed

lemma rounded_sum_close:
  fixes qs :: "real list" and table :: "bool list \<rightharpoonup> real"
  assumes Q: "\<And>p. p \<in> set qs \<Longrightarrow> 0 \<le> p \<and> p \<le> 1"
    and T: "\<And>states c. table states = Some c \<Longrightarrow> 0 \<le> c \<and> c \<le> 1"
    and s: "s = (2 * real (length qs) + 2) / 2 ^ 53"
  shows "0 \<le> t \<Longrightarrow> 0 \<le> a \<Longrightarrow> \<bar>a - t\<bar> \<le> e \<Longrightarrow>
    t + (\<Sum>ss\<leftarrow>xs. weight qs ss * cpt_entry table ss) \<le> 1 \<Longrightarrow>
    e + real (length xs) * s \<le> 1 / 2 \<Longrightarrow>
    0 \<le> foldl (\<lambda>total_prob states.
             case table states of
               Some c \<Rightarrow> round_double (total_prob + round_double (rounded_weight round_double 1 qs states * c))
             | None \<Rightarrow> total_prob) a xs
    \<and> \<bar>foldl (\<lambda>total_prob states.
             case table states of
               Some c \<Rightarrow> round_double (total_prob + round_double (rounded_weight round_double 1 qs states * c))
             | None \<Rightarrow> total_prob) a xs
        - (t + (\<Sum>ss\<leftarrow>xs. weight qs ss * cpt_entry table ss))\<bar>
      \<le> e + real (length xs) * s"
proof (induction xs arbitrary: t a e)
  case Nil
  then show ?case by simp
next
  case (Cons x xs)
  define u :: real where "u = 1 / 2 ^ 53"
  have su: "s = 2 * real (length qs) * u + 2 * u"
    by (simp add: s u_def field_simps)
  have s0: "0 \<le> s" by (simp add: s)
  have w: "0 \<le> weight qs ss" for ss
    using Q by (rule weight_nonneg)
  have c: "0 \<le> cpt_entry table ss \<and> cpt_entry table ss \<le> 1" for ss
    using T by (rule cpt_entry_bounds)
  have rest: "0 \<le> (\<Sum>ss\<leftarrow>xs. weight qs ss * cpt_entry table ss)"
    by (rule sum_list_nonneg) (use w c in auto)
  show ?case
  proof (cases "table x")
    case None
    then have z: "cpt_entry table x = 0" by (simp add: cpt_entry_def)
    have "e + real (length xs) * s \<le> e + real (length (x # xs)) * s"
      using s0 by (simp add: algebra_simps)
    with Cons.prems(5) have b: "e + real (length xs) * s \<le> 1 / 2" by simp
    from Cons.prems(4) have g: "t + (\<Sum>ss\<leftarrow>xs. weight qs ss * cpt_entry table ss) \<le> 1"
      by (simp add: z)
    from Cons.IH [OF Cons.prems(1,2,3) g b] s0 show ?thesis
      by (simp add: None z algebra_simps)
  next
    case (Some cv)
    then have cv: "cpt_entry table x = cv" "0 \<le> cv" "cv \<le> 1"
      using T [OF Some] by (simp_all add: cpt_entry_def)
    define wr where "wr = rounded_weight round_double 1 qs x"
    define ct where "ct = round_double (wr * cv)"
    define a' where "a' = round_double (a + ct)"
    define t' where "t' = t + weight qs x * cv"
    from rounded_weight_close [OF Q, where acc = 1 and a = 1 and ss = x]
    have wr: "0 \<le> wr" "wr \<le> 1" "\<bar>wr - weight qs x\<bar> \<le> 2 * real (length qs) * u"
      by (simp_all add: wr_def u_def)
    from wr cv have wc: "0 \<le> wr * cv" "wr * cv \<le> 1"
      by (auto intro: mult_le_one)
    then have ct: "0 \<le> ct" "\<bar>ct - wr * cv\<bar> \<le> u"
      unfolding ct_def u_def
      using round_double_nonneg [of "wr * cv"] round_double_error [of "wr * cv"] by simp_all
    have "\<bar>wr * cv - weight qs x * cv\<bar> = \<bar>wr - weight qs x\<bar> * cv"
      using cv by (simp add: abs_mult flip: left_diff_distrib)
    also have "\<dots> \<le> \<bar>wr - weight qs x\<bar> * 1"
      using cv by (intro mult_left_mono) auto
    finally have "\<bar>wr * cv - weight qs x * cv\<bar> \<le> 2 * real (length qs) * u"
      using wr(3) by simp
    with ct(2) have cd: "\<bar>ct - weight qs x * cv\<bar> \<le> 2 * real (length qs) * u + u" by linarith
    have t': "0 \<le> t'" using Cons.prems(1) w [of x] cv by (simp add: t'_def)
    have g: "t' + (\<Sum>ss\<leftarrow>xs. weight qs ss * cpt_entry table ss) \<le> 1"
      using Cons.prems(4) by (simp add: t'_def cv add.assoc)
    with rest have t1: "t' \<le> 1" by linarith
    have ls: "real (length (x # xs)) * s = s + real (length xs) * s"
      by (simp add: algebra_simps)
    have ln: "0 \<le> real (length xs) * s" using s0 by simp
    from Cons.prems(3) cd have ad: "\<bar>(a + ct) - t'\<bar> \<le> e + 2 * real (length qs) * u + u"
      unfolding t'_def by linarith
    have e0: "0 \<le> e" using Cons.prems(3) by linarith
    have u0: "0 \<le> u" by (simp add: u_def)
    have "e + s \<le> 1 / 2" using Cons.prems(5) ln unfolding ls by linarith
    then have "e + 2 * real (length qs) * u + u \<le> 1 / 2"
      using su u0 by linarith
    with ad t1 have "a + ct < 2" by linarith
    moreover have ac: "0 \<le> a + ct" using Cons.prems(2) ct(1) by simp
    ultimately have "\<bar>a' - (a + ct)\<bar> \<le> u"
      unfolding a'_def u_def by (rule round_double_error [rotated])
    with ad su have ad': "\<bar>a' - t'\<bar> \<le> e + s" by linarith
    have a': "0 \<le> a'" unfolding a'_def using ac by (rule round_double_nonneg)
    have b: "(e + s) + real (length xs) * s \<le> 1 / 2"
      using Cons.prems(5) unfolding ls by simp
    from Cons.IH [OF t' a' ad' g b] show ?thesis
      by (simp add: Some a'_def ct_def wr_def t'_def cv algebra_simps)
  qed
qed

lemma length_all_states: "length (all_states k) = 2 ^ k"
proof (induction k)
  case 0
  then show ?case by simp
next
  case (Suc k)
  have "length (concat (map (\<lambda>ss. [False # ss, True # ss]) xs)) = 2 * length xs"
    for xs :: "bool list list"
    by (induction xs) simp_all
  with Suc show ?case by simp
qed

lemma rounding_slack_small:
  assumes "k \<le> 40"
  shows "rounding_slack k \<le> 1 / 2"
proof -
  from assms have "(2::real) ^ k \<le> 2 ^ 40"
    by (intro power_increasing) auto
  moreover from assms have "2 * real k + 2 \<le> 82" by simp
  ultimately have "(2::real) ^ k * (2 * real k + 2) \<le> 2 ^ 40 * 82"
    by (intro mult_mono) auto
  also have "\<dots> \<le> 2 ^ 52" by simp
  finally have "(2::real) ^ k * (2 * real k + 2) / 2 ^ 53 \<le> 2 ^ 52 / 2 ^ 53"
    by (rule divide_right_mono) simp
  then show ?thesis by (simp add: rounding_slack_def)
qed

lemma rounded_marginal_close:
  assumes P: "\<And>p. p \<in> set ps \<Longrightarrow> 0 \<le> P p \<and> P p \<le> 1"
    and T: "\<And>states c. table states = Some c \<Longrightarrow> 0 \<le> c \<and> c \<le> 1"
    and k: "length ps \<le> 40"
  shows "0 \<le> rounded_marginal round_double P ps table
    \<and> \<bar>rounded_marginal round_double P ps table - cpt_marginal P ps table\<bar>
        \<le> rounding_slack (length ps)"
proof -
  have Q: "\<And>p. p \<in> set (map P ps) \<Longrightarrow> 0 \<le> p \<and> p \<le> 1"
    using P by auto
  have s: "real (length (all_states (length ps))) * ((2 * real (length (map P ps)) + 2) / 2 ^ 53)
      = rounding_slack (length ps)"
    by (simp add: length_all_states rounding_slack_def)
  have g: "0 + (\<Sum>ss\<leftarrow>all_states (length ps). weight (map P ps) ss * cpt_entry table ss) \<le> 1"
    using cpt_marginal_bounds [OF P T] by (simp add: cpt_marginal_list)
  have b: "0 + real (length (all_states (length ps))) * ((2 * real (length (map P ps)) + 2) / 2 ^ 53)
      \<le> 1 / 2"
    unfolding s using rounding_slack_small [OF k] by simp
  have "0 \<le> (0::real)" "\<bar>0 - 0\<bar> \<le> (0::real)" by simp_all
  from rounded_sum_close [where qs = "map P ps" and table = table and t = 0 and a = 0
      and e = 0 and xs = "all_states (length ps)", OF Q T refl this(1) this(1) this(2) g b]
  show ?thesis
    unfolding s by (simp add: rounded_marginal_def cpt_marginal_list)
qed

subsection \<open>C1: the marginal of a factor with a table\<close>

text \<open>
  Claim C1. For every registered factor with parents that has a table, no evidence entry
  of its own, and parents whose probabilities are computable (\<open>P\<close> gives them),
  \<open>calculate_probability\<close> returns the sum, over all \<open>2 ^ k\<close> ordered combinations
  of parent states, of the combination's weight times the table's entry for it, a
  missing entry counting as zero. In every arithmetic it is that sum computed in that
  arithmetic; in exact arithmetic it is the sum over the set of all combinations; and in
  double arithmetic, with parent probabilities and table entries in \<open>[0, 1]\<close> and at
  most 40 parents, it is within \<open>2 ^ k * (2 * k + 2) / 2 ^ 53\<close> of the exact sum.
\<close>

theorem calculate_probability_cpt_marginal:
  assumes "map_of (bn_risk_structure m) f = Some risk"
    and "parents risk \<noteq> []"
    and "cpt m f = Some table"
    and "evidence m f = None"
    and "\<And>p. p \<in> set (parents risk) \<Longrightarrow> calculate_probability fl d m p = Inr (P p)"
  shows "calculate_probability fl (Suc d) m f = Inr (rounded_marginal fl P (parents risk) table)
    \<and> rounded_marginal (\<lambda>x. x) P (parents risk) table = cpt_marginal P (parents risk) table
    \<and> ((\<forall>p\<in>set (parents risk). 0 \<le> P p \<and> P p \<le> 1)
         \<and> (\<forall>states c. table states = Some c \<longrightarrow> 0 \<le> c \<and> c \<le> 1)
         \<and> length (parents risk) \<le> 40 \<longrightarrow>
       \<bar>rounded_marginal round_double P (parents risk) table
           - cpt_marginal P (parents risk) table\<bar> \<le> rounding_slack (length (parents risk)))"
proof (intro conjI impI)
  show "calculate_probability fl (Suc d) m f = Inr (rounded_marginal fl P (parents risk) table)"
    using calculate_probability_Suc_value [OF assms(1,2,4,5)] assms(3) by simp
  show "rounded_marginal (\<lambda>x. x) P (parents risk) table = cpt_marginal P (parents risk) table"
    by (rule rounded_marginal_exact)
  assume h: "(\<forall>p\<in>set (parents risk). 0 \<le> P p \<and> P p \<le> 1)
      \<and> (\<forall>states c. table states = Some c \<longrightarrow> 0 \<le> c \<and> c \<le> 1)
      \<and> length (parents risk) \<le> 40"
  have "0 \<le> rounded_marginal round_double P (parents risk) table
    \<and> \<bar>rounded_marginal round_double P (parents risk) table - cpt_marginal P (parents risk) table\<bar>
        \<le> rounding_slack (length (parents risk))"
    by (rule rounded_marginal_close) (use h in auto)
  then show "\<bar>rounded_marginal round_double P (parents risk) table
      - cpt_marginal P (parents risk) table\<bar> \<le> rounding_slack (length (parents risk))"
    by simp
qed

lemma sample_model_sel:
  "bn_risk_structure sample_model = build_sample_structure"
  "cpt sample_model = initialize_cpt"
  "evidence sample_model = Map.empty"
  by (simp_all add: sample_model_def BayesianNetworkModel_init_def ShipbuildingOntology_init_def)

lemma calculate_probability_root:
  "0 < d \<Longrightarrow> map_of (bn_risk_structure m) f = Some risk \<Longrightarrow> parents risk = [] \<Longrightarrow>
   evidence m f = None \<Longrightarrow> calculate_probability fl d m f = Inr (probability risk)"
  by (cases d) simp_all

text \<open>The sum for \<open>block_delay\<close>, one rounding after the other.\<close>

lemma block_delay_rounded:
  "rounded_marginal round_double unconditioned [''material_delay'', ''manpower_shortage'']
     (cpt2 (round_double 0.85) (round_double 0.60) (round_double 0.55) (round_double 0.10))
   = 1565000870511247 / 4503599627370496"
proof -
  have s0: "round_double (3 / 10) = 5404319552844595 / 18014398509481984"
    by (rule trans [OF round_double_scaled [where n = 54]]) (simp_all add: rne_def)
  have s1: "round_double (1 / 4) = 1 / 4"
    by (rule trans [OF round_double_scaled [where n = 54]]) (simp_all add: rne_def)
  have s2: "round_double (17 / 20) = 7656119366529843 / 9007199254740992"
    by (rule trans [OF round_double_scaled [where n = 53]]) (simp_all add: rne_def)
  have s3: "round_double (3 / 5) = 5404319552844595 / 9007199254740992"
    by (rule trans [OF round_double_scaled [where n = 53]]) (simp_all add: rne_def)
  have s4: "round_double (11 / 20) = 2476979795053773 / 4503599627370496"
    by (rule trans [OF round_double_scaled [where n = 53]]) (simp_all add: rne_def)
  have s5: "round_double (1 / 10) = 3602879701896397 / 36028797018963968"
    by (rule trans [OF round_double_scaled [where n = 56]]) (simp_all add: rne_def)
  have s6: "round_double (12610078956637389 / 18014398509481984) = 3152519739159347 / 4503599627370496"
    by (rule trans [OF round_double_scaled [where n = 53]]) (simp_all add: rne_def)
  have s7: "round_double (3152519739159347 / 4503599627370496) = 3152519739159347 / 4503599627370496"
    by (rule trans [OF round_double_scaled [where n = 53]]) (simp_all add: rne_def)
  have s8: "round_double (3 / 4) = 3 / 4"
    by (rule trans [OF round_double_scaled [where n = 53]]) (simp_all add: rne_def)
  have s9: "round_double (9457559217478041 / 18014398509481984) = 1182194902184755 / 2251799813685248"
    by (rule trans [OF round_double_scaled [where n = 53]]) (simp_all add: rne_def)
  have s10: "round_double (4259306016766850304891962827735 / 81129638414606681695789005144064) = 236438980436951 / 4503599627370496"
    by (rule trans [OF round_double_scaled [where n = 57]]) (simp_all add: rne_def)
  have s11: "round_double (236438980436951 / 4503599627370496) = 236438980436951 / 4503599627370496"
    by (rule trans [OF round_double_scaled [where n = 57]]) (simp_all add: rne_def)
  have s12: "round_double (5404319552844595 / 18014398509481984) = 5404319552844595 / 18014398509481984"
    by (rule trans [OF round_double_scaled [where n = 54]]) (simp_all add: rne_def)
  have s13: "round_double (16212958658533785 / 72057594037927936) = 2026619832316723 / 9007199254740992"
    by (rule trans [OF round_double_scaled [where n = 55]]) (simp_all add: rne_def)
  have s14: "round_double (10952501185971900542743638662185 / 81129638414606681695789005144064) = 4863887597560135 / 36028797018963968"
    by (rule trans [OF round_double_scaled [where n = 55]]) (simp_all add: rne_def)
  have s15: "round_double (6755399441055743 / 36028797018963968) = 6755399441055743 / 36028797018963968"
    by (rule trans [OF round_double_scaled [where n = 55]]) (simp_all add: rne_def)
  have s16: "round_double (3152519739159347 / 18014398509481984) = 3152519739159347 / 18014398509481984"
    by (rule trans [OF round_double_scaled [where n = 55]]) (simp_all add: rne_def)
  have s17: "round_double (7808727697405893248327680566231 / 81129638414606681695789005144064) = 1733885856537641 / 18014398509481984"
    by (rule trans [OF round_double_scaled [where n = 56]]) (simp_all add: rne_def)
  have s18: "round_double (10223171154131025 / 36028797018963968) = 638948197133189 / 2251799813685248"
    by (rule trans [OF round_double_scaled [where n = 54]]) (simp_all add: rne_def)
  have s19: "round_double (5404319552844595 / 72057594037927936) = 5404319552844595 / 72057594037927936"
    by (rule trans [OF round_double_scaled [where n = 56]]) (simp_all add: rne_def)
  have s20: "round_double (41376115591449405052764608748585 / 649037107316853453566312041152512) = 2296835809958953 / 36028797018963968"
    by (rule trans [OF round_double_scaled [where n = 56]]) (simp_all add: rne_def)
  have s21: "round_double (12520006964089977 / 36028797018963968) = 1565000870511247 / 4503599627370496"
    by (rule trans [OF round_double_scaled [where n = 54]]) (simp_all add: rne_def)
  note steps = s0 s1 s2 s3 s4 s5 s6 s7 s8 s9 s10 s11 s12 s13 s14 s15 s16 s17 s18 s19 s20 s21
  show ?thesis
    by (simp add: rounded_marginal_def cpt2_def unconditioned_def steps)
qed

text \<open>
  The theorem in double arithmetic at \<open>block_delay\<close> of the sample system, parents
  at 0.30 and 0.25 and the table 0.85, 0.60, 0.55, 0.10: the interpreter returns the
  double 0.3474999999999999, which is within 1e-9 of 0.3475 and within
  \<open>24 / 2 ^ 53\<close> of the exact sum over the doubles of the table and the parents.
\<close>

theorem calculate_probability_cpt_marginal_witness:
  "calculate_probability round_double 1000 sample_model ''block_delay''
     = Inr (1565000870511247 / 4503599627370496)
   \<and> \<bar>1565000870511247 / 4503599627370496 - 0.3475\<bar> \<le> (1 / 10 ^ 9 :: real)
   \<and> \<bar>1565000870511247 / 4503599627370496
        - cpt_marginal unconditioned [''material_delay'', ''manpower_shortage'']
            (cpt2 (round_double 0.85) (round_double 0.60) (round_double 0.55) (round_double 0.10))\<bar>
       \<le> rounding_slack 2"
proof (intro conjI)
  let ?risk = "\<lparr>name = ''block_delay'', probability = 0.0,
      parents = [''material_delay'', ''manpower_shortage'']\<rparr>"
  let ?table = "cpt2 (round_double 0.85) (round_double 0.60) (round_double 0.55) (round_double 0.10)"
  have h1: "map_of (bn_risk_structure sample_model) ''block_delay'' = Some ?risk"
    by (simp add: sample_model_sel build_sample_structure_def)
  have h2: "parents ?risk \<noteq> []" by simp
  have h3: "cpt sample_model ''block_delay'' = Some ?table"
    by (simp add: sample_model_sel initialize_cpt_def)
  have h4: "evidence sample_model ''block_delay'' = None"
    by (simp add: sample_model_sel)
  have h5: "calculate_probability round_double 999 sample_model p = Inr (unconditioned p)"
    if "p \<in> set (parents ?risk)" for p
  proof -
    from that have "p = ''material_delay'' \<or> p = ''manpower_shortage''" by simp
    then show ?thesis
      by (auto simp: calculate_probability_root sample_model_sel build_sample_structure_def
          unconditioned_def)
  qed
  note inst = calculate_probability_cpt_marginal [OF h1 h2 h3 h4 h5]
  from inst
  have v: "calculate_probability round_double (Suc 999) sample_model ''block_delay''
      = Inr (rounded_marginal round_double unconditioned (parents ?risk) ?table)"
    by (rule conjunct1)
  then have "calculate_probability round_double (Suc 999) sample_model ''block_delay''
      = Inr (1565000870511247 / 4503599627370496)"
    by (simp only: block_delay_rounded RiskFactor.simps)
  moreover have "Suc 999 = 1000" by simp
  ultimately
  show "calculate_probability round_double 1000 sample_model ''block_delay'' = Inr (1565000870511247 / 4503599627370496)"
    by (simp only:)
  show "\<bar>1565000870511247 / 4503599627370496 - 0.3475\<bar> \<le> (1 / 10 ^ 9 :: real)"
    by simp
  have p: "\<forall>p\<in>set (parents ?risk). 0 \<le> unconditioned p \<and> unconditioned p \<le> 1"
    by (simp add: unconditioned_def round_double_unit)
  have t: "\<forall>states c. ?table states = Some c \<longrightarrow> 0 \<le> c \<and> c \<le> 1"
    by (auto simp: cpt2_def round_double_unit split: if_splits)
  have k: "length (parents ?risk) \<le> 40" by simp
  from inst p t k
  have "\<bar>rounded_marginal round_double unconditioned (parents ?risk) ?table
      - cpt_marginal unconditioned (parents ?risk) ?table\<bar> \<le> rounding_slack (length (parents ?risk))"
    by blast
  then show "\<bar>1565000870511247 / 4503599627370496
        - cpt_marginal unconditioned [''material_delay'', ''manpower_shortage''] ?table\<bar>
       \<le> rounding_slack 2"
    by (simp only: block_delay_rounded RiskFactor.simps list.size length_Cons)
       (simp add: numeral_2_eq_2)
qed

lemma calculate_probability_unregistered:
  "0 < d \<Longrightarrow> map_of (bn_risk_structure m) f = None \<Longrightarrow>
   calculate_probability fl d m f = Inl KeyError"
  by (cases d) simp_all

subsection \<open>C2: evidence overrides the computation\<close>

text \<open>
  Claim C2, as amended. For every registered factor id under an evidence override,
  \<open>calculate_probability\<close> returns exactly 1 when the evidence is true and exactly 0
  when it is false, whether the factor has parents or is a root, and whatever the tables
  and the parents would give. The source subscripts \<open>risk_structure\<close> before it looks
  at the evidence, so an id that is not registered raises \<open>KeyError\<close> even when
  evidence is recorded for it.
\<close>

theorem evidence_overrides_registered:
  assumes "map_of (bn_risk_structure m) f = Some risk" and "evidence m f = Some b"
  shows "calculate_probability fl (Suc d) m f = Inr (if b then 1 else 0)"
  using assms by simp

text \<open>
  The theorem at \<open>block_delay\<close> (two parents, evidence true) and at the root
  \<open>bad_weather\<close> (evidence false) of the sample system.
\<close>

theorem evidence_overrides_registered_witness:
  "calculate_probability round_double (Suc 0) (set_evidence sample_model ''block_delay'' True) ''block_delay''
     = Inr 1
   \<and> calculate_probability round_double (Suc 0) (set_evidence sample_model ''bad_weather'' False) ''bad_weather''
     = Inr 0"
proof
  let ?m = "set_evidence sample_model ''block_delay'' True"
  have r: "map_of (bn_risk_structure ?m) ''block_delay''
      = Some \<lparr>name = ''block_delay'', probability = 0.0,
          parents = [''material_delay'', ''manpower_shortage'']\<rparr>"
    by (simp add: set_evidence_def sample_model_sel build_sample_structure_def)
  have e: "evidence ?m ''block_delay'' = Some True"
    by (simp add: set_evidence_def)
  show "calculate_probability round_double (Suc 0) ?m ''block_delay'' = Inr 1"
    using evidence_overrides_registered [OF r e, where fl = round_double and d = 0] by simp
next
  let ?m = "set_evidence sample_model ''bad_weather'' False"
  have r: "map_of (bn_risk_structure ?m) ''bad_weather''
      = Some \<lparr>name = ''bad_weather'', probability = round_double 0.20, parents = []\<rparr>"
    by (simp add: set_evidence_def sample_model_sel build_sample_structure_def)
  have e: "evidence ?m ''bad_weather'' = Some False"
    by (simp add: set_evidence_def)
  show "calculate_probability round_double (Suc 0) ?m ''bad_weather'' = Inr 0"
    using evidence_overrides_registered [OF r e, where fl = round_double and d = 0] by simp
qed

text \<open>Evidence for the unregistered id \<open>ghost\<close>: the request raises \<open>KeyError\<close>.\<close>

theorem evidence_unregistered_counterexample:
  "evidence ghost_evidence_model ''ghost'' = Some True
   \<and> calculate_probability round_double 1000 ghost_evidence_model ''ghost'' = Inl KeyError"
proof -
  have "map_of (bn_risk_structure ghost_evidence_model) ''ghost'' = None"
    by (simp add: ghost_evidence_model_def set_evidence_def sample_model_sel
        build_sample_structure_def)
  then have "calculate_probability round_double 1000 ghost_evidence_model ''ghost'' = Inl KeyError"
    by (simp add: calculate_probability_unregistered)
  then show ?thesis
    by (simp add: ghost_evidence_model_def set_evidence_def)
qed

subsection \<open>C9: evidence is recorded unchecked\<close>

text \<open>
  Claim C9. \<open>set_evidence\<close> accepts any id, registered or not: it has no failure
  path, stores the boolean under the id and changes nothing else. Whether the id is
  registered is found out only when its probability is requested, which raises
  \<open>KeyError\<close> for an id that is not in the risk structure.
\<close>

theorem set_evidence_unchecked:
  "evidence (set_evidence m f b) = (evidence m)(f \<mapsto> b)
   \<and> bn_risk_structure (set_evidence m f b) = bn_risk_structure m
   \<and> cpt (set_evidence m f b) = cpt m
   \<and> (map_of (bn_risk_structure m) f = None \<longrightarrow>
        calculate_probability fl (Suc d) (set_evidence m f b) f = Inl KeyError)"
  by (simp add: set_evidence_def)

theorem set_evidence_unchecked_witness:
  "evidence (set_evidence sample_model ''weld_defect'' False) ''weld_defect'' = Some False
   \<and> calculate_probability round_double (Suc 0) (set_evidence sample_model ''weld_defect'' False) ''weld_defect''
       = Inl KeyError"
proof -
  have "map_of (bn_risk_structure sample_model) ''weld_defect'' = None"
    by (simp add: sample_model_sel build_sample_structure_def)
  with set_evidence_unchecked [where m = sample_model and f = "''weld_defect''" and b = False
      and fl = round_double and d = 0]
  show ?thesis by simp
qed

subsection \<open>C5: a non-positive iteration count\<close>

text \<open>
  Claim C5, as amended. For every non-positive iteration count \<open>run_simulation\<close>
  raises nothing: the loop body never runs, no draw is taken, and the result is the empty
  table. The source has no check of the count and no error for it.
\<close>

theorem run_simulation_nonpositive:
  "n \<le> 0 \<Longrightarrow> run_simulation fl d sim m rnd pos n = Inr ([], pos)"
  by (simp add: run_simulation_def)

theorem run_simulation_nonpositive_witness:
  "(- 5 :: int) \<le> 0
   \<and> run_simulation round_double 1000 sample_simulator sample_model half_draws 0 (- 5) = Inr ([], 0)"
  using run_simulation_nonpositive [where n = "- 5" and fl = round_double and d = 1000
      and sim = sample_simulator and m = sample_model and rnd = half_draws and pos = 0]
  by simp

text \<open>The counts 0 and -1 on the sample system: both return the empty table.\<close>

theorem run_simulation_zero_counterexample:
  "run_simulation round_double 1000 sample_simulator sample_model half_draws 0 0 = Inr ([], 0)
   \<and> run_simulation round_double 1000 sample_simulator sample_model half_draws 0 (- 1) = Inr ([], 0)"
  by (simp add: run_simulation_def)

subsection \<open>Where an exception comes from\<close>

lemma collect_Inl_source:
  "collect (map f xs) = Inl e \<Longrightarrow> \<exists>x\<in>set xs. f x = Inl e"
proof (induction xs)
  case Nil
  then show ?case by simp
next
  case (Cons y ys)
  then show ?case
    by (cases "f y") (auto split: sum.splits)
qed

lemma combination_prob_Inl_source:
  "combination_prob fl prob zs acc = Inl e \<Longrightarrow> \<exists>p\<in>fst ` set zs. prob p = Inl e"
proof (induction zs arbitrary: acc)
  case Nil
  then show ?case by simp
next
  case (Cons z zs)
  obtain p s where z: "z = (p, s)" by (cases z)
  show ?case
  proof (cases "prob p")
    case (Inl a)
    with Cons.prems z show ?thesis by simp
  next
    case (Inr v)
    with Cons.prems z obtain acc' where "combination_prob fl prob zs acc' = Inl e" by auto
    from Cons.IH [OF this] show ?thesis by auto
  qed
qed

lemma cpt_loop_Inl_source:
  "cpt_loop fl prob ps table idxs tot = Inl e \<Longrightarrow> \<exists>p\<in>set ps. prob p = Inl e"
proof (induction idxs arbitrary: tot)
  case Nil
  then show ?case by simp
next
  case (Cons i idxs)
  show ?case
  proof (cases "combination_prob fl prob (zip ps (parent_states (length ps) i)) 1")
    case (Inl a)
    with Cons.prems have "a = e" by simp
    with Inl have "combination_prob fl prob (zip ps (parent_states (length ps) i)) 1 = Inl e"
      by simp
    then obtain p where p: "p \<in> fst ` set (zip ps (parent_states (length ps) i))"
      and e: "prob p = Inl e"
      by (rule combination_prob_Inl_source [THEN bexE])
    from p have "p \<in> set ps" by (auto dest: set_zip_leftD)
    with e show ?thesis by blast
  next
    case (Inr c)
    show ?thesis
    proof (cases "table (parent_states (length ps) i)")
      case None
      with Inr Cons.prems have "cpt_loop fl prob ps table idxs tot = Inl e" by simp
      then show ?thesis by (rule Cons.IH)
    next
      case (Some v)
      with Inr Cons.prems have "cpt_loop fl prob ps table idxs (fl (tot + fl (c * v))) = Inl e" by simp
      then show ?thesis by (rule Cons.IH)
    qed
  qed
qed

lemma registered_parents:
  "parents_registered m \<Longrightarrow> map_of (bn_risk_structure m) f = Some risk \<Longrightarrow>
   p \<in> set (parents risk) \<Longrightarrow> \<exists>r. map_of (bn_risk_structure m) p = Some r"
  unfolding parents_registered_def by (auto dest!: map_of_SomeD)

lemma only_RecursionError:
  "parents_registered m \<Longrightarrow> map_of (bn_risk_structure m) f = Some risk \<Longrightarrow>
   calculate_probability fl d m f = Inl e \<Longrightarrow> e = RecursionError"
proof (induction d arbitrary: f risk e)
  case 0
  then show ?case by simp
next
  case (Suc d)
  have par: "e' = RecursionError"
    if "p \<in> set (parents risk)" "calculate_probability fl d m p = Inl e'" for p e'
  proof -
    from registered_parents [OF Suc.prems(1,2) that(1)] obtain r where
      "map_of (bn_risk_structure m) p = Some r" ..
    with Suc.prems(1) show ?thesis using that(2) by (rule Suc.IH)
  qed
  note k = Suc.prems(3)
  show ?case
  proof (cases "parents risk = [] \<or> evidence m f \<noteq> None")
    case True
    from calculate_probability_Suc_direct [OF Suc.prems(2) True, of fl d] k
    show ?thesis by auto
  next
    case False
    then have unf: "parents risk \<noteq> []" "evidence m f = None" by auto
    note k' = k [unfolded calculate_probability_Suc_parents [OF Suc.prems(2) unf]]
    show ?thesis
    proof (cases "collect (map (\<lambda>p. calculate_probability fl d m p) (parents risk))")
      case (Inl e')
      with k' have "e' = e" by simp
      with Inl collect_Inl_source [of "\<lambda>p. calculate_probability fl d m p" "parents risk" e]
      obtain p where "p \<in> set (parents risk)" "calculate_probability fl d m p = Inl e"
        by auto
      then show ?thesis by (rule par)
    next
      case (Inr vs)
      show ?thesis
      proof (cases "cpt m f")
        case None
        with k' Inr show ?thesis by simp
      next
        case (Some table)
        with k' Inr
        have "cpt_loop fl (\<lambda>p. calculate_probability fl d m p) (parents risk) table
                [0..<2 ^ length (parents risk)] 0 = Inl e"
          by simp
        from cpt_loop_Inl_source [OF this]
        obtain p where "p \<in> set (parents risk)" "calculate_probability fl d m p = Inl e"
          by auto
        then show ?thesis by (rule par)
      qed
    qed
  qed
qed

lemma no_probability_without_root:
  assumes "\<And>g. g \<in> S \<Longrightarrow> evidence m g = None \<and>
             (\<exists>risk. map_of (bn_risk_structure m) g = Some risk \<and> (\<exists>p\<in>set (parents risk). p \<in> S))"
  shows "f \<in> S \<Longrightarrow> \<exists>e. calculate_probability fl d m f = Inl e"
proof (induction d arbitrary: f)
  case 0
  then show ?case by simp
next
  case (Suc d)
  from assms [OF Suc.prems] obtain risk p where
    ev: "evidence m f = None" and r: "map_of (bn_risk_structure m) f = Some risk"
    and p: "p \<in> set (parents risk)" "p \<in> S"
    by blast
  from Suc.IH [OF p(2)] obtain e where "calculate_probability fl d m p = Inl e" ..
  with p(1) obtain e' where
    "collect (map (\<lambda>p. calculate_probability fl d m p) (parents risk)) = Inl e'"
    using collect_map_Inl [of p "parents risk" "\<lambda>p. calculate_probability fl d m p" e] by blast
  then have c: "(case collect (map (\<lambda>p. calculate_probability fl d m p) (parents risk)) of
       Inl e \<Rightarrow> Inl e
     | Inr parent_probs \<Rightarrow>
        (case cpt m f of
           None \<Rightarrow> Inr (fl (1 - np_prod fl (map (\<lambda>p. fl (1 - p)) parent_probs)))
         | Some table \<Rightarrow>
             cpt_loop fl (\<lambda>p. calculate_probability fl d m p) (parents risk) table
               [0..<2 ^ length (parents risk)] 0)) = Inl e'"
    by simp
  from p(1) have np: "parents risk \<noteq> []" by auto
  have "calculate_probability fl (Suc d) m f = Inl e'"
    unfolding calculate_probability_Suc_parents [OF r np ev] by (rule c)
  then show ?case ..
qed

lemma evaluation_path_step:
  "evaluation_path m fs \<Longrightarrow> g \<in> set (butlast fs) \<Longrightarrow>
   \<exists>risk. map_of (bn_risk_structure m) g = Some risk \<and> (\<exists>p\<in>set (parents risk). p \<in> set fs)"
proof (induction m fs rule: evaluation_path.induct)
  case (1 m f h rest)
  show ?case
  proof (cases "g = f")
    case True
    with "1.prems"(1) show ?thesis by (auto split: option.splits)
  next
    case False
    with "1.prems" have "evaluation_path m (h # rest)" "g \<in> set (butlast (h # rest))"
      by auto
    from "1.IH" [OF this] show ?thesis by auto
  qed
qed simp_all

subsection \<open>C4: a cyclic parent relation\<close>

text \<open>
  Claim C4, as amended. When an evaluation path from a factor comes back to a factor that
  is already on it (the factor is on a cycle of the parent relation, or downstream of
  one) and no factor of the path has an evidence entry, the request returns no
  probability at any recursion limit: it ends in an exception, and that exception is
  \<open>RecursionError\<close> when every parent id is registered. The source keeps no record
  of the path and has no error of its own for a cycle; a factor with evidence returns
  1 or 0 also on a cycle.
\<close>

theorem cycle_gives_no_probability:
  assumes "evaluation_path m (f # path)"
    and "last (f # path) \<in> set (butlast (f # path))"
    and "\<forall>g\<in>set (f # path). evidence m g = None"
  shows "(\<exists>e. calculate_probability fl d m f = Inl e)
         \<and> (parents_registered m \<longrightarrow> calculate_probability fl d m f = Inl RecursionError)"
proof -
  let ?S = "set (f # path)"
  have step: "evidence m g = None \<and>
      (\<exists>risk. map_of (bn_risk_structure m) g = Some risk \<and> (\<exists>p\<in>set (parents risk). p \<in> ?S))"
    if "g \<in> ?S" for g
  proof -
    have "butlast (f # path) @ [last (f # path)] = f # path"
      by (rule append_butlast_last_id) simp
    with that have "g \<in> set (butlast (f # path) @ [last (f # path)])"
      by (simp only:)
    then have "g \<in> set (butlast (f # path)) \<or> g = last (f # path)"
      by (simp only: set_append Un_iff list.set insert_iff empty_iff simp_thms)
    with assms(2) have "g \<in> set (butlast (f # path))" by auto
    from evaluation_path_step [OF assms(1) this] assms(3) that show ?thesis by blast
  qed
  have fail: "\<exists>e. calculate_probability fl d m f = Inl e"
    using no_probability_without_root [of ?S m f fl d] step by simp
  from step [of f] obtain risk where r: "map_of (bn_risk_structure m) f = Some risk" by auto
  have "e = RecursionError"
    if "parents_registered m" "calculate_probability fl d m f = Inl e" for e
    using that(1) r that(2) by (rule only_RecursionError)
  with fail show ?thesis by auto
qed

theorem cycle_gives_no_probability_witness:
  "evaluation_path cyclic_model [''a'', ''b'', ''a'']
   \<and> calculate_probability round_double 1000 cyclic_model ''a'' = Inl RecursionError"
proof -
  have p: "evaluation_path cyclic_model (''a'' # [''b'', ''a''])"
    by (simp add: cyclic_model_def)
  have l: "last (''a'' # [''b'', ''a'']) \<in> set (butlast (''a'' # [''b'', ''a'']))"
    by simp
  have e: "\<forall>g\<in>set (''a'' # [''b'', ''a'']). evidence cyclic_model g = None"
    by (simp add: cyclic_model_def)
  have c: "parents_registered cyclic_model"
    by (simp add: parents_registered_def cyclic_model_def)
  from cycle_gives_no_probability [OF p l e, where fl = round_double and d = 1000] c p
  show ?thesis by simp
qed

text \<open>
  With evidence for \<open>b\<close>, the request for \<open>a\<close> on the cycle \<open>a, b, a\<close>
  returns the probability 1.
\<close>

theorem cycle_with_evidence_counterexample:
  "evaluation_path (set_evidence cyclic_model ''b'' True) [''a'', ''b'', ''a'']
   \<and> calculate_probability round_double 1000 (set_evidence cyclic_model ''b'' True) ''a'' = Inr 1"
proof -
  have "calculate_probability round_double (Suc (Suc d)) (set_evidence cyclic_model ''b'' True) ''a'' = Inr 1"
    for d
    by (simp add: set_evidence_def cyclic_model_def round_double_0 round_double_1)
  from this [of 998] show ?thesis
    by (simp add: set_evidence_def cyclic_model_def)
qed

subsection \<open>Bounds on probabilities\<close>

lemma np_prod_exact: "np_prod (\<lambda>x. x) xs = prod_list xs"
proof (cases xs)
  case Nil
  then show ?thesis by simp
next
  case (Cons y ys)
  have "foldl (\<lambda>acc z. acc * z) a ys = a * prod_list ys" for a :: real
    by (induction ys arbitrary: a) (simp_all add: mult.assoc)
  with Cons show ?thesis by simp
qed

lemma or_fallback_bounds:
  "(\<And>p. p \<in> set qs \<Longrightarrow> 0 \<le> p \<and> p \<le> (1::real)) \<Longrightarrow>
   0 \<le> prod_list (map (\<lambda>p. 1 - p) qs) \<and> prod_list (map (\<lambda>p. 1 - p) qs) \<le> 1"
proof (induction qs)
  case Nil
  then show ?case by simp
next
  case (Cons q qs)
  then have q: "0 \<le> 1 - q" "1 - q \<le> 1" by auto
  from Cons have r: "0 \<le> prod_list (map (\<lambda>p. 1 - p) qs)" "prod_list (map (\<lambda>p. 1 - p) qs) \<le> 1"
    by auto
  from q r have "(1 - q) * prod_list (map (\<lambda>p. 1 - p) qs) \<le> 1"
    by (rule_tac mult_le_one) auto
  with q r show ?case by simp
qed

lemma collect_Inr_each:
  "collect (map f xs) = Inr vs \<Longrightarrow> x \<in> set xs \<Longrightarrow> \<exists>v. f x = Inr v"
proof (induction xs arbitrary: vs)
  case Nil
  then show ?case by simp
next
  case (Cons y ys)
  then show ?case
    by (cases "f y") (auto split: sum.splits)
qed

lemma probability_bounds:
  assumes v: "probabilities_valid m"
  shows "calculate_probability (\<lambda>x. x) d m f = Inr x \<Longrightarrow> 0 \<le> x \<and> x \<le> 1"
proof (induction d arbitrary: f x)
  case 0
  then show ?case by simp
next
  case (Suc d)
  from Suc.prems obtain risk where r: "map_of (bn_risk_structure m) f = Some risk"
    by (cases "map_of (bn_risk_structure m) f") auto
  then have mem: "(f, risk) \<in> set (bn_risk_structure m)" by (rule map_of_SomeD)
  show ?case
  proof (cases "evidence m f")
    case (Some b)
    with Suc.prems r show ?thesis by (auto split: if_splits)
  next
    case None
    show ?thesis
    proof (cases "parents risk = []")
      case True
      with Suc.prems r None have "x = probability risk" by simp
      with v mem True show ?thesis unfolding probabilities_valid_def by auto
    next
      case False
      note unf = calculate_probability_Suc_parents [OF r False None, where d = d and fl = "\<lambda>x. x"]
      obtain vs where vs: "collect (map (\<lambda>p. calculate_probability (\<lambda>x. x) d m p) (parents risk)) = Inr vs"
        using Suc.prems unfolding unf
        by (cases "collect (map (\<lambda>p. calculate_probability (\<lambda>x. x) d m p) (parents risk))") auto
      define P where "P p = projr (calculate_probability (\<lambda>x. x) d m p)" for p
      have P: "calculate_probability (\<lambda>x. x) d m p = Inr (P p)" if "p \<in> set (parents risk)" for p
        using collect_Inr_each [OF vs that] by (auto simp: P_def)
      have Pb: "0 \<le> P p \<and> P p \<le> 1" if "p \<in> set (parents risk)" for p
        using Suc.IH [OF P [OF that]] .
      note val = calculate_probability_Suc_value [OF r False None P]
      show ?thesis
      proof (cases "cpt m f")
        case None
        with val Suc.prems have "x = 1 - prod_list (map (\<lambda>p. 1 - p) (map P (parents risk)))"
          by (simp add: np_prod_exact)
        moreover have "0 \<le> prod_list (map (\<lambda>p. 1 - p) (map P (parents risk)))
            \<and> prod_list (map (\<lambda>p. 1 - p) (map P (parents risk))) \<le> 1"
          by (rule or_fallback_bounds) (use Pb in auto)
        ultimately show ?thesis by simp
      next
        case (Some table)
        with val Suc.prems have "x = cpt_marginal P (parents risk) table"
          by (simp add: rounded_marginal_exact)
        moreover have "0 \<le> cpt_marginal P (parents risk) table
            \<and> cpt_marginal P (parents risk) table \<le> 1"
        proof (rule cpt_marginal_bounds)
          show "0 \<le> P p \<and> P p \<le> 1" if "p \<in> set (parents risk)" for p by (rule Pb [OF that])
          show "0 \<le> c \<and> c \<le> 1" if "table states = Some c" for states c
            using v Some that unfolding probabilities_valid_def by blast
        qed
        ultimately show ?thesis by simp
      qed
    qed
  qed
qed

lemma foldl_product_unit:
  "0 \<le> acc \<Longrightarrow> acc \<le> 1 \<Longrightarrow> (\<And>y. y \<in> set ys \<Longrightarrow> 0 \<le> y \<and> y \<le> 1) \<Longrightarrow>
   0 \<le> foldl (\<lambda>acc y. round_double (acc * y)) acc ys
   \<and> foldl (\<lambda>acc y. round_double (acc * y)) acc ys \<le> 1"
proof (induction ys arbitrary: acc)
  case Nil
  then show ?case by simp
next
  case (Cons y ys)
  from Cons.prems have "0 \<le> acc * y" "acc * y \<le> 1"
    by (auto intro: mult_le_one)
  then have "0 \<le> round_double (acc * y)" "round_double (acc * y) \<le> 1"
    using round_double_unit [of "acc * y"] by auto
  from Cons.IH [OF this] Cons.prems(3) show ?case by simp
qed

lemma or_fallback_rounded:
  assumes "\<And>p. p \<in> set qs \<Longrightarrow> 0 \<le> p \<and> p \<le> 1"
  shows "0 \<le> round_double (1 - np_prod round_double (map (\<lambda>p. round_double (1 - p)) qs))
    \<and> round_double (1 - np_prod round_double (map (\<lambda>p. round_double (1 - p)) qs)) \<le> 1"
proof -
  have e: "0 \<le> y \<and> y \<le> 1" if "y \<in> set (map (\<lambda>p. round_double (1 - p)) qs)" for y
  proof -
    from that obtain p where "p \<in> set qs" "y = round_double (1 - p)" by auto
    with assms [of p] round_double_unit [of "1 - p"] show ?thesis by simp
  qed
  have "0 \<le> np_prod round_double (map (\<lambda>p. round_double (1 - p)) qs)
      \<and> np_prod round_double (map (\<lambda>p. round_double (1 - p)) qs) \<le> 1"
  proof (cases "map (\<lambda>p. round_double (1 - p)) qs")
    case Nil
    then show ?thesis by simp
  next
    case (Cons y ys)
    with e have "0 \<le> y" "y \<le> 1" "\<And>z. z \<in> set ys \<Longrightarrow> 0 \<le> z \<and> z \<le> 1" by auto
    from foldl_product_unit [OF this] Cons show ?thesis by simp
  qed
  then show ?thesis
    using round_double_unit [of "1 - np_prod round_double (map (\<lambda>p. round_double (1 - p)) qs)"]
    by simp
qed

lemma probability_bounds_rounded:
  assumes v: "probabilities_valid m" and g: "tables_guarded m"
  shows "calculate_probability round_double d m f = Inr x \<Longrightarrow> 0 \<le> x \<and> x \<le> 1"
proof (induction d arbitrary: f x)
  case 0
  then show ?case by simp
next
  case (Suc d)
  from Suc.prems obtain risk where r: "map_of (bn_risk_structure m) f = Some risk"
    by (cases "map_of (bn_risk_structure m) f") auto
  then have mem: "(f, risk) \<in> set (bn_risk_structure m)" by (rule map_of_SomeD)
  show ?case
  proof (cases "evidence m f")
    case (Some b)
    with Suc.prems r show ?thesis by (auto split: if_splits)
  next
    case None
    show ?thesis
    proof (cases "parents risk = []")
      case True
      with Suc.prems r None have "x = probability risk" by simp
      with v mem True show ?thesis unfolding probabilities_valid_def by auto
    next
      case False
      note unf = calculate_probability_Suc_parents [OF r False None, where d = d and fl = round_double]
      obtain vs where vs: "collect (map (\<lambda>p. calculate_probability round_double d m p) (parents risk)) = Inr vs"
        using Suc.prems unfolding unf
        by (cases "collect (map (\<lambda>p. calculate_probability round_double d m p) (parents risk))") auto
      define P where "P p = projr (calculate_probability round_double d m p)" for p
      have P: "calculate_probability round_double d m p = Inr (P p)" if "p \<in> set (parents risk)" for p
        using collect_Inr_each [OF vs that] by (auto simp: P_def)
      have Pb: "0 \<le> P p \<and> P p \<le> 1" if "p \<in> set (parents risk)" for p
        using Suc.IH [OF P [OF that]] .
      note val = calculate_probability_Suc_value [OF r False None P]
      show ?thesis
      proof (cases "cpt m f")
        case None
        with val Suc.prems
        have "x = round_double (1 - np_prod round_double
            (map (\<lambda>p. round_double (1 - p)) (map P (parents risk))))"
          by simp
        moreover have "\<And>p. p \<in> set (map P (parents risk)) \<Longrightarrow> 0 \<le> p \<and> p \<le> 1"
          using Pb by auto
        then have "0 \<le> round_double (1 - np_prod round_double
              (map (\<lambda>p. round_double (1 - p)) (map P (parents risk))))
          \<and> round_double (1 - np_prod round_double
              (map (\<lambda>p. round_double (1 - p)) (map P (parents risk)))) \<le> 1"
          by (rule or_fallback_rounded)
        ultimately show ?thesis by (simp only:)
      next
        case (Some table)
        with val Suc.prems have x: "x = rounded_marginal round_double P (parents risk) table"
          by simp
        from g r Some have k: "length (parents risk) \<le> 40"
          and hi: "\<And>states c. table states = Some c \<Longrightarrow> c \<le> 1 - rounding_slack (length (parents risk))"
          unfolding tables_guarded_def by blast+
        have lo: "0 \<le> c \<and> c \<le> 1" if "table states = Some c" for states c
          using v Some that unfolding probabilities_valid_def by blast
        have s: "rounding_slack (length (parents risk)) \<le> 1 / 2"
          using k by (rule rounding_slack_small)
        from rounded_marginal_close [OF Pb lo k]
        have c: "0 \<le> rounded_marginal round_double P (parents risk) table"
          "\<bar>rounded_marginal round_double P (parents risk) table - cpt_marginal P (parents risk) table\<bar>
            \<le> rounding_slack (length (parents risk))"
          by auto
        have b0: "0 \<le> 1 - rounding_slack (length (parents risk))"
          using s by linarith
        have "cpt_marginal P (parents risk) table \<le> 1 - rounding_slack (length (parents risk))"
          using Pb hi b0 by (rule cpt_marginal_le)
        with c x show ?thesis by linarith
      qed
    qed
  qed
qed

lemma probability_computable:
  assumes t: "topological m rank"
  shows "map_of (bn_risk_structure m) f = Some risk \<Longrightarrow> rank f < d \<Longrightarrow>
         \<exists>x. calculate_probability fl d m f = Inr x"
proof (induction d arbitrary: f risk)
  case 0
  then show ?case by simp
next
  case (Suc d)
  note r = Suc.prems(1)
  then have mem: "(f, risk) \<in> set (bn_risk_structure m)" by (rule map_of_SomeD)
  show ?case
  proof (cases "parents risk = [] \<or> evidence m f \<noteq> None")
    case True
    with r show ?thesis by (rule calculate_probability_Suc_direct)
  next
    case False
    then have np: "parents risk \<noteq> []" and ev: "evidence m f = None" by auto
    have "\<exists>x. calculate_probability fl d m p = Inr x" if "p \<in> set (parents risk)" for p
    proof -
      from t mem that have "map_of (bn_risk_structure m) p \<noteq> None" "rank p < rank f"
        unfolding topological_def by auto
      then obtain r' where "map_of (bn_risk_structure m) p = Some r'" "rank p < d"
        using Suc.prems(2) by auto
      then show ?thesis by (rule Suc.IH)
    qed
    then have "calculate_probability fl d m p = Inr (projr (calculate_probability fl d m p))"
      if "p \<in> set (parents risk)" for p
      using that by force
    from calculate_probability_Suc_value [OF r np ev this] show ?thesis by blast
  qed
qed

lemma sample_model_valid: "probabilities_valid sample_model"
  unfolding probabilities_valid_def
proof (intro conjI allI impI)
  show "\<forall>(f, risk)\<in>set (bn_risk_structure sample_model).
       parents risk = [] \<longrightarrow> 0 \<le> probability risk \<and> probability risk \<le> 1"
    by (simp add: sample_model_sel build_sample_structure_def round_double_unit)
next
  fix f table states c
  assume "cpt sample_model f = Some table" "table states = Some c"
  then show "0 \<le> c" "c \<le> 1"
    by (auto simp: sample_model_sel initialize_cpt_def cpt2_def round_double_unit
        split: if_splits)
qed

lemma sample_model_topological: "topological sample_model sample_rank"
  by (simp add: topological_def sample_model_sel build_sample_structure_def sample_rank_def)

lemma round_double_guard:
  assumes "0 \<le> v" and "v \<le> 19 / 20"
  shows "round_double v \<le> 1 - rounding_slack 2"
proof -
  from assms have "\<bar>round_double v - v\<bar> \<le> 1 / 2 ^ 53"
    by (intro round_double_error) auto
  then have "round_double v \<le> v + 1 / 2 ^ 53" by linarith
  also have "\<dots> \<le> 19 / 20 + 1 / 2 ^ 53" using assms by simp
  also have "\<dots> \<le> 1 - rounding_slack 2" by (simp add: rounding_slack_def)
  finally show ?thesis .
qed

lemma sample_model_guarded: "tables_guarded sample_model"
  unfolding tables_guarded_def
proof (intro allI impI conjI)
  fix f risk table
  assume r: "map_of (bn_risk_structure sample_model) f = Some risk"
    and t: "cpt sample_model f = Some table"
  from r show "length (parents risk) \<le> 40"
    by (auto simp: sample_model_sel build_sample_structure_def split: if_splits)
  fix states c
  assume c: "table states = Some c"
  from t have k: "length (parents risk) = 2"
    using r by (auto simp: sample_model_sel build_sample_structure_def initialize_cpt_def
        split: if_splits)
  from t c have "c \<le> 1 - rounding_slack 2"
    by (auto simp: sample_model_sel initialize_cpt_def cpt2_def round_double_guard
        split: if_splits)
  with k show "c \<le> 1 - rounding_slack (length (parents risk))" by simp
qed

subsection \<open>C7: every probability lies in the unit interval\<close>

text \<open>
  Claim C7, as amended. Let every root base probability and every table entry lie in
  \<open>[0, 1]\<close> and let the graph be acyclic. Then for every registered factor and every
  evidence configuration \<open>ev\<close>, \<open>calculate_probability\<close> returns a value; the depth
  \<open>d\<close> is the room the interpreter leaves for nested calls, and it has to exceed the
  depth of the factor in the graph. In double arithmetic, as the interpreter computes,
  the value lies in \<open>[0, 1]\<close> when moreover every table entry of a factor with
  \<open>k\<close> parents is at most \<open>1 - 2 ^ k * (2 * k + 2) / 2 ^ 53\<close>, with \<open>k\<close> at most
  40. In exact arithmetic it lies in \<open>[0, 1]\<close> for every table. With entries closer
  to 1 the rounded sum over the combinations can exceed 1; the source does not clamp it.
\<close>

theorem probability_in_unit_interval:
  assumes "probabilities_valid m" and "topological m rank"
    and "map_of (bn_risk_structure m) f = Some risk" and "rank f < d"
  shows "(tables_guarded m \<longrightarrow>
           (\<exists>x. calculate_probability round_double d (m\<lparr>evidence := ev\<rparr>) f = Inr x
                \<and> 0 \<le> x \<and> x \<le> 1))
       \<and> (\<exists>x. calculate_probability (\<lambda>x. x) d (m\<lparr>evidence := ev\<rparr>) f = Inr x
                \<and> 0 \<le> x \<and> x \<le> 1)"
proof (intro conjI impI)
  let ?m = "m\<lparr>evidence := ev\<rparr>"
  have v: "probabilities_valid ?m"
    using assms(1) by (simp add: probabilities_valid_def)
  have t: "topological ?m rank"
    using assms(2) by (simp add: topological_def)
  have r: "map_of (bn_risk_structure ?m) f = Some risk"
    using assms(3) by simp
  from probability_computable [OF t r assms(4)] obtain x where
    x: "calculate_probability (\<lambda>x. x) d ?m f = Inr x" ..
  from probability_bounds [OF v x] x
  show "\<exists>x. calculate_probability (\<lambda>x. x) d ?m f = Inr x \<and> 0 \<le> x \<and> x \<le> 1"
    by blast
  assume "tables_guarded m"
  then have g: "tables_guarded ?m" by (simp add: tables_guarded_def)
  from probability_computable [OF t r assms(4)] obtain y where
    y: "calculate_probability round_double d ?m f = Inr y" ..
  from probability_bounds_rounded [OF v g y] y
  show "\<exists>x. calculate_probability round_double d ?m f = Inr x \<and> 0 \<le> x \<and> x \<le> 1"
    by blast
qed

text \<open>
  The theorem at \<open>overtime\<close> of the sample system, three levels below the roots,
  with evidence for \<open>material_delay\<close>; the largest entry of its tables is 0.95.
\<close>

theorem probability_in_unit_interval_witness:
  "probabilities_valid sample_model \<and> topological sample_model sample_rank
   \<and> tables_guarded sample_model
   \<and> (\<exists>x. calculate_probability round_double 1000
             (sample_model\<lparr>evidence := [''material_delay'' \<mapsto> True]\<rparr>) ''overtime'' = Inr x
          \<and> 0 \<le> x \<and> x \<le> 1)
   \<and> (\<exists>x. calculate_probability (\<lambda>x. x) 1000
             (sample_model\<lparr>evidence := [''material_delay'' \<mapsto> True]\<rparr>) ''overtime'' = Inr x
          \<and> 0 \<le> x \<and> x \<le> 1)"
proof -
  have r: "map_of (bn_risk_structure sample_model) ''overtime''
      = Some \<lparr>name = ''overtime'', probability = 0.0, parents = [''block_delay'', ''idle_time'']\<rparr>"
    by (simp add: sample_model_sel build_sample_structure_def)
  have d: "sample_rank ''overtime'' < 1000"
    by (simp add: sample_rank_def)
  from probability_in_unit_interval [OF sample_model_valid sample_model_topological r d]
    sample_model_valid sample_model_topological sample_model_guarded
  show ?thesis by blast
qed

text \<open>The sum for the child of 0.08 and 0.19, one rounding after the other.\<close>

lemma certain_child_rounded:
  "rounded_marginal round_double
     (\<lambda>p. if p = ''a'' then round_double 0.08 else round_double 0.19) [''a'', ''b'']
     (cpt2 1 1 1 1)
   = 4503599627370497 / 4503599627370496"
proof -
  have s0: "round_double (2 / 25) = 5764607523034235 / 72057594037927936"
    by (rule trans [OF round_double_scaled [where n = 56]]) (simp_all add: rne_def)
  have s1: "round_double (19 / 100) = 3422735716801577 / 18014398509481984"
    by (rule trans [OF round_double_scaled [where n = 55]]) (simp_all add: rne_def)
  have s2: "round_double (66292986514893701 / 72057594037927936) = 8286623314361713 / 9007199254740992"
    by (rule trans [OF round_double_scaled [where n = 53]]) (simp_all add: rne_def)
  have s3: "round_double (8286623314361713 / 9007199254740992) = 8286623314361713 / 9007199254740992"
    by (rule trans [OF round_double_scaled [where n = 53]]) (simp_all add: rne_def)
  have s4: "round_double (14591662792680407 / 18014398509481984) = 1823957849085051 / 2251799813685248"
    by (rule trans [OF round_double_scaled [where n = 53]]) (simp_all add: rne_def)
  have s5: "round_double (15114451636641226450945115052363 / 20282409603651670423947251286016) = 1678041221158247 / 2251799813685248"
    by (rule trans [OF round_double_scaled [where n = 53]]) (simp_all add: rne_def)
  have s6: "round_double (1678041221158247 / 2251799813685248) = 1678041221158247 / 2251799813685248"
    by (rule trans [OF round_double_scaled [where n = 53]]) (simp_all add: rne_def)
  have s7: "round_double (5764607523034235 / 72057594037927936) = 5764607523034235 / 72057594037927936"
    by (rule trans [OF round_double_scaled [where n = 56]]) (simp_all add: rne_def)
  have s8: "round_double (10514401138533026858402099720985 / 162259276829213363391578010288128) = 4669332093657731 / 72057594037927936"
    by (rule trans [OF round_double_scaled [where n = 56]]) (simp_all add: rne_def)
  have s9: "round_double (4669332093657731 / 72057594037927936) = 4669332093657731 / 72057594037927936"
    by (rule trans [OF round_double_scaled [where n = 56]]) (simp_all add: rne_def)
  have s10: "round_double (58366651170721635 / 72057594037927936) = 1823957849085051 / 2251799813685248"
    by (rule trans [OF round_double_scaled [where n = 53]]) (simp_all add: rne_def)
  have s11: "round_double (28362921589746497484497626821401 / 162259276829213363391578010288128) = 3148916859457451 / 18014398509481984"
    by (rule trans [OF round_double_scaled [where n = 55]]) (simp_all add: rne_def)
  have s12: "round_double (3148916859457451 / 18014398509481984) = 3148916859457451 / 18014398509481984"
    by (rule trans [OF round_double_scaled [where n = 55]]) (simp_all add: rne_def)
  have s13: "round_double (17740579652137859 / 18014398509481984) = 4435144913034465 / 4503599627370496"
    by (rule trans [OF round_double_scaled [where n = 53]]) (simp_all add: rne_def)
  have s14: "round_double (19730728062432345629728472988595 / 1298074214633706907132624082305024) = 8762203435012037 / 576460752303423488"
    by (rule trans [OF round_double_scaled [where n = 59]]) (simp_all add: rne_def)
  have s15: "round_double (8762203435012037 / 576460752303423488) = 8762203435012037 / 576460752303423488"
    by (rule trans [OF round_double_scaled [where n = 59]]) (simp_all add: rne_def)
  have s16: "round_double (576460752303423557 / 576460752303423488) = 4503599627370497 / 4503599627370496"
    by (rule trans [OF round_double_scaled [where n = 52]]) (simp_all add: rne_def)
  note steps = s0 s1 s2 s3 s4 s5 s6 s7 s8 s9 s10 s11 s12 s13 s14 s15 s16
  show ?thesis
    by (simp add: rounded_marginal_def cpt2_def steps)
qed

text \<open>
  In double arithmetic the child of the roots 0.08 and 0.19, with 1.0 in every entry of
  its table, gets 1.0000000000000002: the inputs are valid, the graph is acyclic, and
  the probability is greater than 1.
\<close>

theorem probability_above_one_counterexample:
  "probabilities_valid certain_child_model
   \<and> topological certain_child_model certain_child_rank
   \<and> calculate_probability round_double 1000 certain_child_model ''c''
       = Inr (4503599627370497 / 4503599627370496)
   \<and> (1 :: real) < 4503599627370497 / 4503599627370496"
proof (intro conjI)
  show "probabilities_valid certain_child_model"
    by (auto simp: probabilities_valid_def certain_child_model_def cpt2_def round_double_unit
        split: if_splits)
  show "topological certain_child_model certain_child_rank"
    by (simp add: topological_def certain_child_model_def certain_child_rank_def)
  let ?risk = "\<lparr>name = ''c'', probability = 0, parents = [''a'', ''b'']\<rparr>"
  let ?P = "\<lambda>p. if p = ''a'' then round_double 0.08 else round_double 0.19"
  have r: "map_of (bn_risk_structure certain_child_model) ''c'' = Some ?risk"
    by (simp add: certain_child_model_def)
  have np: "parents ?risk \<noteq> []" by simp
  have ev: "evidence certain_child_model ''c'' = None"
    by (simp add: certain_child_model_def)
  have t: "cpt certain_child_model ''c'' = Some (cpt2 1 1 1 1)"
    by (simp add: certain_child_model_def)
  have P: "calculate_probability round_double 999 certain_child_model p = Inr (?P p)"
    if "p \<in> set (parents ?risk)" for p
  proof -
    from that have "p = ''a'' \<or> p = ''b''" by simp
    then show ?thesis
      by (auto simp: calculate_probability_root certain_child_model_def)
  qed
  from calculate_probability_Suc_value [OF r np ev P]
  have "calculate_probability round_double (Suc 999) certain_child_model ''c''
      = Inr (rounded_marginal round_double ?P (parents ?risk) (cpt2 1 1 1 1))"
    by (simp only: t option.case)
  then have "calculate_probability round_double (Suc 999) certain_child_model ''c''
      = Inr (4503599627370497 / 4503599627370496)"
    by (simp only: certain_child_rounded RiskFactor.simps)
  moreover have "Suc 999 = 1000" by simp
  ultimately
  show "calculate_probability round_double 1000 certain_child_model ''c''
      = Inr (4503599627370497 / 4503599627370496)"
    by (simp only:)
  show "(1 :: real) < 4503599627370497 / 4503599627370496" by simp
qed

subsection \<open>C8: the two exceedance fractions\<close>

lemma length_filter_mono:
  "(\<And>x. x \<in> set xs \<Longrightarrow> P x \<Longrightarrow> Q x) \<Longrightarrow> length (filter P xs) \<le> length (filter Q xs)"
  by (induction xs) auto

lemma fraction_over_antimono:
  assumes t: "t1 \<le> t2"
  shows "fraction_over round_double column t2 \<le> fraction_over round_double column t1"
proof -
  have "length (filter (\<lambda>c. exceeds c t2) column) \<le> length (filter (\<lambda>c. exceeds c t1) column)"
    by (rule length_filter_mono) (use t in \<open>auto simp: exceeds_def split: option.splits\<close>)
  then have "real (length (filter (\<lambda>c. exceeds c t2) column)) / real (length column)
      \<le> real (length (filter (\<lambda>c. exceeds c t1) column)) / real (length column)"
    by (simp add: divide_right_mono)
  moreover have "0 \<le> real (length (filter (\<lambda>c. exceeds c t2) column)) / real (length column)"
    by simp
  ultimately show ?thesis
    unfolding fraction_over_def by (rule round_double_mono [rotated])
qed

lemma budget_thresholds:
  "round_double (100 * round_double 1.1) \<le> round_double (100 * round_double 1.2)"
proof -
  have "round_double 1.1 \<le> round_double 1.2"
    by (rule round_double_mono) simp_all
  then have "100 * round_double 1.1 \<le> 100 * round_double 1.2" by simp
  moreover have "0 \<le> round_double 1.1"
    by (rule round_double_nonneg) simp
  then have "0 \<le> 100 * round_double 1.1" by simp
  ultimately show ?thesis by (rule round_double_mono [rotated])
qed

lemma analyze_results_returns:
  assumes "\<exists>r\<in>set results. r ''total'' \<noteq> None"
    and "statistics_return fl pd (map (\<lambda>r. r ''total'') results)"
  shows "\<exists>a. analyze_results fl pd sim results = Inr a
    \<and> prob_over_budget a
        = fraction_over fl (map (\<lambda>r. r ''total'') results) (fl (sim_base_cost sim * fl 1.1))
    \<and> prob_over_budget_20 a
        = fraction_over fl (map (\<lambda>r. r ''total'') results) (fl (sim_base_cost sim * fl 1.2))"
proof -
  from assms(1) have c: "\<not> list_all (\<lambda>r. r ''total'' = None) results"
    by (auto simp: list_all_iff)
  let ?col = "map (\<lambda>r. r ''total'') results"
  from assms(2) obtain v1 v2 v3 v4 v5 v6 v7 where
    "series_mean pd ?col = Inr v1" "series_median pd ?col = Inr v2"
    "series_std pd ?col = Inr v3" "series_quantile pd ?col (fl 0.10) = Inr v4"
    "series_quantile pd ?col (fl 0.50) = Inr v5" "series_quantile pd ?col (fl 0.90) = Inr v6"
    "series_quantile pd ?col (fl 0.95) = Inr v7"
    unfolding statistics_return_def by blast
  with c show ?thesis
    by (simp add: analyze_results_def Let_def)
qed

text \<open>
  On a column of booleans the quantile of the examples' library raises, and so does the
  analysis.
\<close>

lemma analyze_results_boolean_column:
  "analyze_results fl strict_pandas sim [[''total'' \<mapsto> Flag False]] = Inl TypeError"
  by (simp add: analyze_results_def strict_pandas_def holds_boolean_def)

text \<open>
  Claim C8. For every table of samples with a \<open>total\<close> column on which the library
  returns its statistics, \<open>analyze_results\<close> of a simulator as its constructor builds
  it (baseline 100.0), in double arithmetic, returns an analysis whose
  \<open>prob_over_budget_20\<close>, the fraction of samples over 1.2 times the baseline, is at
  most its \<open>prob_over_budget\<close>, the fraction over 1.1 times the baseline.
\<close>

theorem over_budget_20_le_over_budget:
  assumes "\<exists>r\<in>set results. r ''total'' \<noteq> None"
    and "statistics_return round_double pd (map (\<lambda>r. r ''total'') results)"
  shows "\<exists>a. analyze_results round_double pd (MonteCarloSimulator_init ontology) results = Inr a
           \<and> prob_over_budget_20 a \<le> prob_over_budget a"
proof -
  let ?sim = "MonteCarloSimulator_init ontology"
  have "round_double (sim_base_cost ?sim * round_double 1.1)
      \<le> round_double (sim_base_cost ?sim * round_double 1.2)"
    using budget_thresholds by (simp add: MonteCarloSimulator_init_def)
  then have "fraction_over round_double (map (\<lambda>r. r ''total'') results)
        (round_double (sim_base_cost ?sim * round_double 1.2))
      \<le> fraction_over round_double (map (\<lambda>r. r ''total'') results)
        (round_double (sim_base_cost ?sim * round_double 1.1))"
    by (rule fraction_over_antimono)
  with analyze_results_returns [OF assms, of ?sim] show ?thesis by auto
qed

text \<open>Three samples with the totals 100.0, 115.0 and 124.5.\<close>

theorem over_budget_20_le_over_budget_witness:
  "\<exists>a. analyze_results round_double strict_pandas sample_simulator
          [[''total'' \<mapsto> Num 100], [''total'' \<mapsto> Num 115], [''total'' \<mapsto> Num 124.5]] = Inr a
      \<and> prob_over_budget_20 a \<le> prob_over_budget a"
proof -
  let ?rows = "[[''total'' \<mapsto> Num 100], [''total'' \<mapsto> Num 115], [''total'' \<mapsto> Num 124.5]]"
  have c: "\<exists>r\<in>set ?rows. r ''total'' \<noteq> None"
    by simp
  have s: "statistics_return round_double strict_pandas (map (\<lambda>r. r ''total'') ?rows)"
    by (simp add: statistics_return_def strict_pandas_def holds_boolean_def)
  from over_budget_20_le_over_budget [OF c s, of ShipbuildingOntology_init]
  show ?thesis by (simp add: sample_simulator_def)
qed

subsection \<open>C3: the evidence around a what-if scenario\<close>

lemma apply_events_fields:
  "bn_risk_structure (apply_events m events) = bn_risk_structure m
   \<and> cpt (apply_events m events) = cpt m"
  by (induction m events rule: apply_events.induct) (simp_all add: set_evidence_def)

text \<open>When \<open>what_if_analysis\<close> returns, the system is as it was before the call.\<close>

lemma what_if_analysis_restores_on_return:
  assumes "what_if_analysis fl pd d dss rnd pos events = (Inr res, dss')"
  shows "dss' = dss"
proof -
  let ?dss1 = "dss\<lparr>bayesian_model := apply_events (bayesian_model dss) events\<rparr>"
  from assms have "dss' = ?dss1\<lparr>bayesian_model :=
      (bayesian_model ?dss1)\<lparr>evidence := evidence (bayesian_model dss)\<rparr>\<rparr>"
    by (auto simp: what_if_analysis_def Let_def split: sum.splits)
  also have "\<dots> = dss"
    using apply_events_fields [of "bayesian_model dss" events] by simp
  finally show ?thesis .
qed

text \<open>
  Claim C3 says that the evidence after \<open>what_if_analysis\<close> is the evidence before
  it on every exit path, an exception included. On the system below the probability
  computation raises \<open>KeyError\<close> during the scenario, and the evidence that the
  scenario set for \<open>bad_weather\<close> is still there afterwards, where there was none
  before the call: the restoring assignment is only reached on return.
\<close>

theorem what_if_analysis_leaks_evidence:
  "fst (what_if_analysis round_double strict_pandas 1000 (DecisionSupportSystem_init dangling_ontology) half_draws 0
          [(''bad_weather'', True)]) = Inl KeyError
   \<and> evidence (bayesian_model (snd (what_if_analysis round_double strict_pandas 1000
          (DecisionSupportSystem_init dangling_ontology) half_draws 0 [(''bad_weather'', True)])))
       ''bad_weather'' = Some True
   \<and> evidence (bayesian_model (DecisionSupportSystem_init dangling_ontology)) ''bad_weather'' = None"
proof -
  let ?m = "apply_events (bayesian_model (DecisionSupportSystem_init dangling_ontology))
              [(''bad_weather'', True)]"
  have "calculate_probability round_double (Suc (Suc d)) ?m ''rework'' = Inl KeyError" for d
    by (simp add: DecisionSupportSystem_init_def BayesianNetworkModel_init_def
        dangling_ontology_def set_evidence_def)
  from this [of 998] have "get_all_probabilities round_double 1000 ?m = Inl KeyError"
    by (simp add: get_all_probabilities_def DecisionSupportSystem_init_def
        BayesianNetworkModel_init_def dangling_ontology_def set_evidence_def)
  then have "what_if_analysis round_double strict_pandas 1000 (DecisionSupportSystem_init dangling_ontology) half_draws 0
      [(''bad_weather'', True)]
    = (Inl KeyError, (DecisionSupportSystem_init dangling_ontology)\<lparr>bayesian_model := ?m\<rparr>)"
    by (simp add: what_if_analysis_def analyze_current_risk_def Let_def)
  then show ?thesis
    by (simp add: DecisionSupportSystem_init_def BayesianNetworkModel_init_def set_evidence_def)
qed

subsection \<open>One iteration of the simulation\<close>

lemma calculate_probability_evidence:
  "0 < d \<Longrightarrow> map_of (bn_risk_structure m) f = Some risk \<Longrightarrow> evidence m f = Some b \<Longrightarrow>
   calculate_probability fl d m f = Inr (if b then 1 else 0)"
  by (cases d) simp_all

lemma calculate_probability_Inr_depth:
  "calculate_probability fl d m f = Inr x \<Longrightarrow> 0 < d"
  by (cases d) simp_all

lemma sample_factors_result:
  "sample_factors fl d m rnd fs pos st0 = Inr (st, pos') \<Longrightarrow>
   dom st = dom st0 \<union> set fs \<and> pos' = pos + length fs"
proof (induction fs arbitrary: pos st0)
  case Nil
  then show ?case by auto
next
  case (Cons g fs)
  from Cons.prems obtain prob where
    "sample_factors fl d m rnd fs (Suc pos) (st0(g \<mapsto> (rnd pos < prob))) = Inr (st, pos')"
    by (cases "calculate_probability fl d m g") auto
  from Cons.IH [OF this] show ?case by auto
qed

lemma sample_factors_returns:
  "(\<And>f. f \<in> set fs \<Longrightarrow> \<exists>x. calculate_probability fl d m f = Inr x) \<Longrightarrow>
   \<exists>st. sample_factors fl d m rnd fs pos st0 = Inr (st, pos + length fs)"
proof (induction fs arbitrary: pos st0)
  case Nil
  then show ?case by simp
next
  case (Cons g fs)
  from Cons.prems obtain x where x: "calculate_probability fl d m g = Inr x" by auto
  from Cons.prems have "\<exists>st. sample_factors fl d m rnd fs (Suc pos) (st0(g \<mapsto> (rnd pos < x)))
      = Inr (st, Suc pos + length fs)"
    by (intro Cons.IH) auto
  with x show ?case by simp
qed

lemma sample_factors_evidence:
  assumes u: "\<forall>i. 0 \<le> rnd i \<and> rnd i < 1"
    and r: "map_of (bn_risk_structure m) f = Some risk" and e: "evidence m f = Some b"
  shows "sample_factors fl d m rnd fs pos st0 = Inr (st, pos') \<Longrightarrow>
         f \<in> set fs \<or> st0 f = Some b \<Longrightarrow> st f = Some b"
proof (induction fs arbitrary: pos st0)
  case Nil
  then show ?case by simp
next
  case (Cons g fs)
  from Cons.prems(1) obtain prob where
    p: "calculate_probability fl d m g = Inr prob"
    and s: "sample_factors fl d m rnd fs (Suc pos) (st0(g \<mapsto> (rnd pos < prob))) = Inr (st, pos')"
    by (cases "calculate_probability fl d m g") auto
  have "f \<in> set fs \<or> (st0(g \<mapsto> (rnd pos < prob))) f = Some b"
  proof (cases "g = f")
    case True
    from p have "0 < d" by (rule calculate_probability_Inr_depth)
    from calculate_probability_evidence [OF this r e] p True
    have "prob = (if b then 1 else 0)" by simp
    with u [rule_format, of pos] have "(rnd pos < prob) = b" by auto
    with True show ?thesis by simp
  next
    case False
    with Cons.prems(2) show ?thesis by auto
  qed
  with s show ?case by (rule Cons.IH)
qed

lemma cost_loop_fst_exact:
  "fst (cost_loop (\<lambda>x. x) st impacts (t, cb)) =
    t + (\<Sum>(f, impact)\<leftarrow>impacts.
           if st f = Some True then base_cost impact * multiplier_if_triggered impact else 0)"
proof (induction impacts arbitrary: t cb)
  case Nil
  show ?case by simp
next
  case (Cons x xs)
  obtain f impact where x: "x = (f, impact)" by (cases x)
  show ?case unfolding x by (simp add: Cons.IH)
qed

lemma cost_loop_snd_num:
  "(\<And>g v. cb g = Some v \<Longrightarrow> \<exists>x. v = Num x) \<Longrightarrow>
   snd (cost_loop fl st impacts (t, cb)) g = Some v \<Longrightarrow> \<exists>x. v = Num x"
proof (induction fl st impacts "(t, cb)" arbitrary: t cb rule: cost_loop.induct)
  case (1 fl iteration_state)
  then show ?case by simp
next
  case (2 fl iteration_state f impact rest total_cost cost_breakdown)
  show ?case
  proof (cases "iteration_state f = Some True")
    case True
    show ?thesis
    proof (rule "2.hyps"(1) [OF True])
      show "\<exists>x. v' = Num x"
        if "(cost_breakdown(f \<mapsto> Num (fl (base_cost impact * multiplier_if_triggered impact)))) g' = Some v'"
        for g' v'
        using that "2.prems"(1) [of g' v'] by (auto split: if_splits)
      from "2.prems"(2) True
      show "snd (cost_loop fl iteration_state rest
          (fl (total_cost + fl (base_cost impact * multiplier_if_triggered impact)),
           cost_breakdown(f \<mapsto> Num (fl (base_cost impact * multiplier_if_triggered impact))))) g = Some v"
        by simp
    qed
  next
    case False
    show ?thesis
    proof (rule "2.hyps"(2) [OF False])
      show "\<exists>x. v' = Num x" if "(cost_breakdown(f \<mapsto> Num 0)) g' = Some v'" for g' v'
        using that "2.prems"(1) [of g' v'] by (auto split: if_splits)
      from "2.prems"(2) False
      show "snd (cost_loop fl iteration_state rest (total_cost, cost_breakdown(f \<mapsto> Num 0))) g = Some v"
        by simp
    qed
  qed
qed

lemma simulate_iteration_row:
  assumes "simulate_iteration fl d sim m rnd pos = Inr (r, pos')"
  obtains st total_cost cb where
    "sample_factors fl d m rnd (map fst (bn_risk_structure m)) pos Map.empty = Inr (st, pos')"
    "cost_loop fl st (cost_impacts (sim_ontology sim))
       (sim_base_cost sim, [''base'' \<mapsto> Num (sim_base_cost sim)]) = (total_cost, cb)"
    "r = (cb(''total'' \<mapsto> Num total_cost)) ++ (\<lambda>k. map_option Flag (st k))"
proof -
  from assms obtain st where
    st: "sample_factors fl d m rnd (map fst (bn_risk_structure m)) pos Map.empty = Inr (st, pos')"
    and r: "(case cost_loop fl st (cost_impacts (sim_ontology sim))
                 (sim_base_cost sim, [''base'' \<mapsto> Num (sim_base_cost sim)]) of
            (total_cost, cost_breakdown) \<Rightarrow>
              (cost_breakdown(''total'' \<mapsto> Num total_cost))
                     ++ (\<lambda>k. map_option Flag (st k))) = r"
    unfolding simulate_iteration_def
    by (cases "sample_factors fl d m rnd (map fst (bn_risk_structure m)) pos Map.empty")
       (auto split: prod.splits)
  obtain total_cost cb where c: "cost_loop fl st (cost_impacts (sim_ontology sim))
       (sim_base_cost sim, [''base'' \<mapsto> Num (sim_base_cost sim)]) = (total_cost, cb)"
    by (cases "cost_loop fl st (cost_impacts (sim_ontology sim))
       (sim_base_cost sim, [''base'' \<mapsto> Num (sim_base_cost sim)])")
  from r c have "r = (cb(''total'' \<mapsto> Num total_cost)) ++ (\<lambda>k. map_option Flag (st k))"
    by simp
  with st c show ?thesis by (rule that)
qed

lemma simulate_iteration_flag:
  assumes "simulate_iteration fl d sim m rnd pos = Inr (r, pos')"
  obtains st where
    "sample_factors fl d m rnd (map fst (bn_risk_structure m)) pos Map.empty = Inr (st, pos')"
    "\<And>g b. (r g = Some (Flag b)) = (st g = Some b)"
    "st ''total'' = None \<Longrightarrow>
      r ''total'' = Some (Num (fst (cost_loop fl st (cost_impacts (sim_ontology sim))
        (sim_base_cost sim, [''base'' \<mapsto> Num (sim_base_cost sim)]))))"
proof -
  from assms obtain st total_cost cb where
    st: "sample_factors fl d m rnd (map fst (bn_risk_structure m)) pos Map.empty = Inr (st, pos')"
    and c: "cost_loop fl st (cost_impacts (sim_ontology sim))
       (sim_base_cost sim, [''base'' \<mapsto> Num (sim_base_cost sim)]) = (total_cost, cb)"
    and r: "r = (cb(''total'' \<mapsto> Num total_cost)) ++ (\<lambda>k. map_option Flag (st k))"
    by (rule simulate_iteration_row)
  have num: "\<exists>x. v = Num x" if "cb g = Some v" for g v
  proof (rule cost_loop_snd_num)
    show "\<exists>x. v' = Num x" if "[''base'' \<mapsto> Num (sim_base_cost sim)] g' = Some v'" for g' v'
      using that by (auto split: if_splits)
    from c that show "snd (cost_loop fl st (cost_impacts (sim_ontology sim))
       (sim_base_cost sim, [''base'' \<mapsto> Num (sim_base_cost sim)])) g = Some v"
      by simp
  qed
  have flag: "(r g = Some (Flag b)) = (st g = Some b)" for g b
  proof (cases "st g")
    case None
    then have "r g = (cb(''total'' \<mapsto> Num total_cost)) g"
      by (simp add: r map_add_def)
    with num [of g "Flag b"] None show ?thesis by (auto split: if_splits)
  next
    case (Some b')
    then show ?thesis by (auto simp: r map_add_def)
  qed
  have tot: "r ''total'' = Some (Num (fst (cost_loop fl st (cost_impacts (sim_ontology sim))
        (sim_base_cost sim, [''base'' \<mapsto> Num (sim_base_cost sim)]))))"
    if "st ''total'' = None"
    using that c by (simp add: r map_add_def)
  from st flag tot show ?thesis by (rule that)
qed

lemma simulate_iteration_returns:
  assumes "\<And>f. f \<in> set (map fst (bn_risk_structure m)) \<Longrightarrow> \<exists>x. calculate_probability fl d m f = Inr x"
  shows "\<exists>r. simulate_iteration fl d sim m rnd pos = Inr (r, pos + length (bn_risk_structure m))"
proof -
  from sample_factors_returns [of "map fst (bn_risk_structure m)" fl d m rnd pos Map.empty] assms
  obtain st where "sample_factors fl d m rnd (map fst (bn_risk_structure m)) pos Map.empty
      = Inr (st, pos + length (bn_risk_structure m))"
    by auto
  then show ?thesis
    by (simp add: simulate_iteration_def split: prod.splits)
qed

lemma run_loop_returns:
  assumes "\<And>p. \<exists>r. simulate_iteration fl d sim m rnd p = Inr (r, p + c)"
  shows "\<exists>rows. run_loop fl d sim m rnd k pos rows0 = Inr (rows, pos + k * c)
           \<and> length rows = length rows0 + k"
proof (induction k arbitrary: pos rows0)
  case 0
  then show ?case by simp
next
  case (Suc k)
  from assms obtain r where r: "simulate_iteration fl d sim m rnd pos = Inr (r, pos + c)" by blast
  from Suc.IH [of "pos + c" "rows0 @ [r]"] obtain rows where
    "run_loop fl d sim m rnd k (pos + c) (rows0 @ [r]) = Inr (rows, pos + c + k * c)"
    "length rows = length (rows0 @ [r]) + k"
    by blast
  with r show ?case by (simp add: add.assoc)
qed

lemma run_loop_rows:
  "run_loop fl d sim m rnd k pos rows0 = Inr (rows, pos') \<Longrightarrow>
   \<exists>new. rows = rows0 @ new \<and> length new = k
     \<and> (\<forall>r\<in>set new. \<exists>p p'. simulate_iteration fl d sim m rnd p = Inr (r, p'))"
proof (induction k arbitrary: pos rows0)
  case 0
  then show ?case by simp
next
  case (Suc k)
  from Suc.prems obtain r p1 where
    r: "simulate_iteration fl d sim m rnd pos = Inr (r, p1)"
    and l: "run_loop fl d sim m rnd k p1 (rows0 @ [r]) = Inr (rows, pos')"
    by (cases "simulate_iteration fl d sim m rnd pos") (auto split: prod.splits)
  from Suc.IH [OF l] obtain new where
    new: "rows = (rows0 @ [r]) @ new" "length new = k"
      "\<forall>r\<in>set new. \<exists>p p'. simulate_iteration fl d sim m rnd p = Inr (r, p')"
    by blast
  show ?case
  proof (intro exI conjI)
    show "rows = rows0 @ (r # new)" using new(1) by simp
    show "length (r # new) = Suc k" using new(2) by simp
    show "\<forall>r\<in>set (r # new). \<exists>p p'. simulate_iteration fl d sim m rnd p = Inr (r, p')"
      using new(3) r by auto
  qed
qed

lemma run_simulation_rows:
  assumes "run_simulation fl d sim m rnd pos n = Inr (rows, pos')"
  shows "length rows = nat n"
    and "r \<in> set rows \<Longrightarrow> \<exists>p p'. simulate_iteration fl d sim m rnd p = Inr (r, p')"
  using run_loop_rows [OF assms [unfolded run_simulation_def]] by auto

lemma run_simulation_returns:
  assumes "\<And>f. f \<in> set (map fst (bn_risk_structure m)) \<Longrightarrow> \<exists>x. calculate_probability fl d m f = Inr x"
  shows "\<exists>rows pos'. run_simulation fl d sim m rnd pos n = Inr (rows, pos') \<and> length rows = nat n"
proof -
  have "\<exists>r. simulate_iteration fl d sim m rnd p = Inr (r, p + length (bn_risk_structure m))" for p
    using assms by (rule simulate_iteration_returns)
  from run_loop_returns [of fl d sim m rnd "length (bn_risk_structure m)" "nat n" pos "[]", OF this]
  show ?thesis by (auto simp: run_simulation_def)
qed

lemma simulate_iteration_total:
  assumes s: "simulate_iteration (\<lambda>x. x) d sim m rnd pos = Inr (r, pos')"
    and n: "''total'' \<notin> fst ` set (bn_risk_structure m)"
  shows "r ''total'' = Some (Num (sim_base_cost sim + occurred_cost (cost_impacts (sim_ontology sim)) r))"
  using s
proof (rule simulate_iteration_flag)
  fix st
  assume st: "sample_factors (\<lambda>x. x) d m rnd (map fst (bn_risk_structure m)) pos Map.empty
      = Inr (st, pos')"
    and flag: "\<And>g b. (r g = Some (Flag b)) = (st g = Some b)"
    and tot: "st ''total'' = None \<Longrightarrow>
      r ''total'' = Some (Num (fst (cost_loop (\<lambda>x. x) st (cost_impacts (sim_ontology sim))
        (sim_base_cost sim, [''base'' \<mapsto> Num (sim_base_cost sim)]))))"
  from sample_factors_result [OF st] n have "st ''total'' = None"
    by (auto simp: dom_def)
  from tot [OF this] show ?thesis
    by (simp add: occurred_cost_def flag cost_loop_fst_exact)
qed

lemma occurred_cost_nonneg:
  "(\<And>f impact. (f, impact) \<in> set impacts \<Longrightarrow>
      0 < base_cost impact \<and> 0 < multiplier_if_triggered impact) \<Longrightarrow>
   0 \<le> occurred_cost impacts r"
  unfolding occurred_cost_def
  by (rule sum_list_nonneg) (auto simp: less_imp_le)

subsection \<open>C6: the samples of a run\<close>

text \<open>
  When every registered factor has a computable probability and no factor id is
  \<open>total\<close>, a run returns exactly \<open>n\<close> samples (in every arithmetic:
  \<open>run_simulation_returns\<close>), and in exact arithmetic the \<open>total\<close> of each is the
  baseline plus the cost of the cost drivers that the sample marks as occurred.
\<close>

lemma run_simulation_samples:
  assumes c: "\<And>f. f \<in> set (map fst (bn_risk_structure m)) \<Longrightarrow> \<exists>x. calculate_probability (\<lambda>x. x) d m f = Inr x"
    and n: "''total'' \<notin> fst ` set (bn_risk_structure m)"
  shows "\<exists>rows pos'. run_simulation (\<lambda>x. x) d sim m rnd pos n = Inr (rows, pos') \<and> length rows = nat n
    \<and> (\<forall>r\<in>set rows. r ''total'' =
          Some (Num (sim_base_cost sim + occurred_cost (cost_impacts (sim_ontology sim)) r)))"
proof -
  from run_simulation_returns [OF c] obtain rows pos' where
    run: "run_simulation (\<lambda>x. x) d sim m rnd pos n = Inr (rows, pos')" and len: "length rows = nat n"
    by blast
  have "r ''total'' = Some (Num (sim_base_cost sim + occurred_cost (cost_impacts (sim_ontology sim)) r))"
    if "r \<in> set rows" for r
  proof -
    from run_simulation_rows(2) [OF run that] obtain p p' where
      "simulate_iteration (\<lambda>x. x) d sim m rnd p = Inr (r, p')" by blast
    then show ?thesis using n by (rule simulate_iteration_total)
  qed
  with run len show ?thesis by blast
qed

text \<open>
  Claim C6 says that every sample's total cost is the baseline plus the cost of the
  occurred cost drivers, hence at least the baseline. \<open>cost_breakdown\<close> holds the
  costs and, after \<open>cost_breakdown.update(iteration_state)\<close>, the occurrences under the
  same keys: with a factor whose id is \<open>total\<close> the one sample of a run has the
  boolean of that factor in its \<open>total\<close> column, not the cost 100.
\<close>

theorem total_column_overwritten:
  "(case run_simulation round_double 1000 (MonteCarloSimulator_init total_clash_ontology)
           (BayesianNetworkModel_init total_clash_ontology) half_draws 0 1 of
      Inl e \<Rightarrow> False
    | Inr (rows, pos') \<Rightarrow> map (\<lambda>r. r ''total'') rows = [Some (Flag False)])"
proof -
  have "calculate_probability round_double (Suc d) (BayesianNetworkModel_init total_clash_ontology) ''total''
      = Inr 0.5" for d
    by (simp add: BayesianNetworkModel_init_def total_clash_ontology_def)
  from this [of 999]
  have "calculate_probability round_double 1000 (BayesianNetworkModel_init total_clash_ontology) ''total''
      = Inr 0.5" by simp
  then show ?thesis
    by (simp add: run_simulation_def simulate_iteration_def BayesianNetworkModel_init_def
        MonteCarloSimulator_init_def total_clash_ontology_def build_cost_impacts_def
        half_draws_def map_add_def)
qed

subsection \<open>C10: evidence fixes the occurrence in every sample\<close>

text \<open>
  Claim C10. Let the random stream draw from \<open>[0, 1)\<close>. In every sample that a run
  produces, a registered factor with evidence \<open>b\<close> is marked \<open>b\<close>: occurred when
  the evidence is true, not occurred when it is false, in every iteration.
\<close>

theorem evidence_fixes_occurrence:
  assumes "\<forall>i. 0 \<le> rnd i \<and> rnd i < 1"
    and "run_simulation fl d sim m rnd pos n = Inr (rows, pos')"
    and "map_of (bn_risk_structure m) f = Some risk"
    and "evidence m f = Some b"
  shows "\<forall>r\<in>set rows. r f = Some (Flag b)"
proof
  fix r assume "r \<in> set rows"
  from run_simulation_rows(2) [OF assms(2) this] obtain p p' where
    "simulate_iteration fl d sim m rnd p = Inr (r, p')" by blast
  then show "r f = Some (Flag b)"
  proof (rule simulate_iteration_flag)
    fix st
    assume st: "sample_factors fl d m rnd (map fst (bn_risk_structure m)) p Map.empty = Inr (st, p')"
      and flag: "\<And>g b. (r g = Some (Flag b)) = (st g = Some b)"
    from assms(3) have "f \<in> set (map fst (bn_risk_structure m))"
      by (auto dest: map_of_SomeD intro: rev_image_eqI)
    then have "st f = Some b"
      using sample_factors_evidence [OF assms(1,3,4) st] by blast
    then show ?thesis by (simp add: flag)
  qed
qed

lemma sample_keys_computable:
  assumes "f \<in> set (map fst (bn_risk_structure sample_model))"
  shows "\<exists>x. calculate_probability round_double 1000 (set_evidence sample_model g b) f = Inr x"
proof -
  let ?m = "set_evidence sample_model g b"
  have t: "topological ?m sample_rank"
    using sample_model_topological by (simp add: topological_def set_evidence_def)
  from assms obtain risk where "map_of (bn_risk_structure ?m) f = Some risk"
    by (cases "map_of (bn_risk_structure sample_model) f")
       (auto simp: set_evidence_def map_of_eq_None_iff)
  moreover have "sample_rank f < 1000" by (simp add: sample_rank_def)
  ultimately show ?thesis by (rule probability_computable [OF t])
qed

text \<open>
  Two iterations on the sample system with evidence that \<open>material_delay\<close> occurred:
  both samples mark it as occurred.
\<close>

theorem evidence_fixes_occurrence_witness:
  "\<exists>rows pos'.
     run_simulation round_double 1000 sample_simulator (set_evidence sample_model ''material_delay'' True)
       half_draws 0 2 = Inr (rows, pos')
     \<and> map (\<lambda>r. r ''material_delay'') rows = [Some (Flag True), Some (Flag True)]"
proof -
  let ?m = "set_evidence sample_model ''material_delay'' True"
  have "\<exists>x. calculate_probability round_double 1000 ?m f = Inr x" if "f \<in> set (map fst (bn_risk_structure ?m))" for f
    using that sample_keys_computable [of f "''material_delay''" True]
    by (simp add: set_evidence_def)
  from run_simulation_returns [of ?m round_double 1000 sample_simulator half_draws 0 2, OF this]
  obtain rows pos' where
    run: "run_simulation round_double 1000 sample_simulator ?m half_draws 0 2 = Inr (rows, pos')"
    and len: "length rows = 2"
    by auto
  have u: "\<forall>i. 0 \<le> half_draws i \<and> half_draws i < 1"
    by (simp add: half_draws_def)
  have r: "map_of (bn_risk_structure ?m) ''material_delay''
      = Some \<lparr>name = ''material_delay'', probability = round_double 0.30, parents = []\<rparr>"
    by (simp add: set_evidence_def sample_model_sel build_sample_structure_def)
  have e: "evidence ?m ''material_delay'' = Some True"
    by (simp add: set_evidence_def)
  from evidence_fixes_occurrence [OF u run r e]
  have all: "\<forall>r\<in>set rows. r ''material_delay'' = Some (Flag True)" .
  from len obtain r1 r2 where "rows = [r1, r2]"
    by (auto simp: length_Suc_conv numeral_2_eq_2)
  with all have m: "map (\<lambda>r. r ''material_delay'') rows = [Some (Flag True), Some (Flag True)]"
    by simp
  show ?thesis
    by (rule exI [of _ rows], rule exI [of _ pos'], rule conjI [OF run m])
qed

end
